theory Spec2Isabelle
  imports Main "HOL-Library.Sublist"
begin

section \<open>Python strings\<close>

text \<open>
  A Python \<open>str\<close> is modelled as a \<open>string\<close>: a list of characters, each a code point
  below 256. The library functions used by \<open>s3pcmd.py\<close> are written out as
  recursive functions on lists.
\<close>

definition newline :: char where
  "newline = CHR 0x0A"

definition slash :: char where
  "slash = CHR ''/''"

text \<open>\<open>s.startswith(p)\<close>, \<open>s.endswith(p)\<close> and \<open>p in s\<close>.\<close>

definition startswith :: "string \<Rightarrow> string \<Rightarrow> bool" where
  "startswith s p = prefix p s"

definition endswith :: "string \<Rightarrow> string \<Rightarrow> bool" where
  "endswith s p = suffix p s"

fun is_in :: "string \<Rightarrow> string \<Rightarrow> bool" where
  "is_in p [] = (p = [])"
| "is_in p (c # cs) = (prefix p (c # cs) \<or> is_in p cs)"

text \<open>\<open>sep.join(parts)\<close>.\<close>

fun join :: "string \<Rightarrow> string list \<Rightarrow> string" where
  "join sep [] = []"
| "join sep [x] = x"
| "join sep (x # y # ys) = x @ sep @ join sep (y # ys)"

text \<open>\<open>s.split(c)\<close> for a one-character separator: never an empty list.\<close>

function split_on :: "char \<Rightarrow> string \<Rightarrow> string list" where
  "split_on c s =
     (case dropWhile (\<lambda>x. x \<noteq> c) s of
        [] \<Rightarrow> [takeWhile (\<lambda>x. x \<noteq> c) s]
      | _ # r \<Rightarrow> takeWhile (\<lambda>x. x \<noteq> c) s # split_on c r)"
  by pat_completeness auto
termination
proof (relation "measure (\<lambda>(c, s). length s)")
  show "wf (measure (\<lambda>(c, s). length s))" by simp
next
  fix c :: char and s :: string and x r
  assume "dropWhile (\<lambda>x. x \<noteq> c) s = x # r"
  then have "length r < length (dropWhile (\<lambda>x. x \<noteq> c) s)" by simp
  also have "\<dots> \<le> length s" by (rule length_dropWhile_le)
  finally show "((c, r), (c, s)) \<in> measure (\<lambda>(c, s). length s)" by simp
qed

declare split_on.simps [simp del]

text \<open>
  \<open>str.isspace\<close> on code points below 256, and \<open>s.strip()\<close>.
\<close>

definition isspace :: "char \<Rightarrow> bool" where
  "isspace c = (of_char c \<in> {9, 10, 11, 12, 13, 28, 29, 30, 31, 32, 133, 160 :: nat})"

definition strip :: "string \<Rightarrow> string" where
  "strip s = rev (dropWhile isspace (rev (dropWhile isspace s)))"

text \<open>
  \<open>s.replace(old, new)\<close>: every non-overlapping occurrence of \<open>old\<close>, from the
  left, is replaced. An empty \<open>old\<close> matches before every character and at the end.
\<close>

function replace_ne :: "string \<Rightarrow> string \<Rightarrow> string \<Rightarrow> string" where
  "replace_ne old new [] = []"
| "replace_ne old new (c # cs) =
     (if old \<noteq> [] \<and> prefix old (c # cs)
      then new @ replace_ne old new (drop (length old) (c # cs))
      else c # replace_ne old new cs)"
  by pat_completeness auto
termination
  by (relation "measure (\<lambda>(old, new, s). length s)") auto

definition replace :: "string \<Rightarrow> string \<Rightarrow> string \<Rightarrow> string" where
  "replace s old new =
     (if old = [] then new @ concat (map (\<lambda>c. c # new) s) else replace_ne old new s)"

section \<open>Errors\<close>

text \<open>The exceptions that the modelled code can raise, as values.\<close>

datatype error =
    RuntimeError string
  | AttributeError
  | TypeError
  | OverflowError
  | IndexError
  | KeyError
  | InvalidS3PathError string

section \<open>S3Path\<close>

text \<open>
  \<open>S3PATH_PATTERN = re.compile(r"(s3[n]?://)([^/]+)[/]?(.*)")\<close>, used with
  \<open>match\<close>: anchored at the start of the input only. \<open>scheme_group\<close> is group 1: the
  optional \<open>n\<close> is greedy, and the two alternatives exclude each other.
\<close>

definition scheme_group :: "string \<Rightarrow> (string \<times> string) option" where
  "scheme_group uri =
     (if prefix ''s3n://'' uri then Some (''s3n://'', drop 6 uri)
      else if prefix ''s3://'' uri then Some (''s3://'', drop 5 uri)
      else None)"

text \<open>
  Group 2, \<open>[^/]+\<close>, takes the longest run of characters other than \<open>/\<close> (a newline is
  one of them) and needs at least one; \<open>[/]?\<close> takes the \<open>/\<close> that follows, if any;
  group 3, \<open>.*\<close>, takes everything up to the first newline. Since the two last parts
  match the empty string, no backtracking into group 2 ever happens.
\<close>

definition S3PATH_PATTERN_match :: "string \<Rightarrow> (string \<times> string \<times> string) option" where
  "S3PATH_PATTERN_match uri =
     (case scheme_group uri of
        None \<Rightarrow> None
      | Some (scheme, rest) \<Rightarrow>
          (let bucket = takeWhile (\<lambda>c. c \<noteq> slash) rest;
               after = dropWhile (\<lambda>c. c \<noteq> slash) rest
           in if bucket = [] then None
              else Some (scheme, bucket,
                     takeWhile (\<lambda>c. c \<noteq> newline) (case after of [] \<Rightarrow> [] | _ # r \<Rightarrow> r))))"

text \<open>
  \<open>normalize_path\<close> is \<open>re.sub(r"\/\/+", "/", uri)\<close>: scanning from the left, every
  maximal run of two or more \<open>/\<close> becomes one \<open>/\<close>.
\<close>

function (sequential) normalize_path :: "string \<Rightarrow> string" where
  "normalize_path [] = []"
| "normalize_path [c] = [c]"
| "normalize_path (a # b # cs) =
     (if a = slash \<and> b = slash
      then slash # normalize_path (dropWhile (\<lambda>c. c = slash) cs)
      else a # normalize_path (b # cs))"
  by pat_completeness auto
termination
proof (relation "measure length")
  show "wf (measure length)" by simp
next
  fix a b :: char and cs :: string
  have "length (dropWhile (\<lambda>c. c = slash) cs) \<le> length cs" by (rule length_dropWhile_le)
  then show "(dropWhile (\<lambda>c. c = slash) cs, a # b # cs) \<in> measure length" by simp
next
  fix a b :: char and cs :: string
  show "(b # cs, a # b # cs) \<in> measure length" by simp
qed

text \<open>
  The object: \<open>proto\<close>, \<open>bucket\<close> and \<open>path\<close>. The field \<open>s3_bucket\<close> is the boto3
  resource handle of \<open>bucket\<close>; creating it touches no storage and it carries no other
  data, so the bucket name stands for it.
\<close>

record S3Path =
  proto :: string
  bucket :: string
  path :: string

text \<open>
  \<open>S3Path.__init__\<close>: a failed match makes \<open>.groups()\<close> raise inside the \<open>try\<close>, and the
  handler raises \<open>RuntimeError("Invliad S3 URI: %{uri}".format(uri=uri))\<close>.
\<close>

definition S3Path_init :: "string \<Rightarrow> error + S3Path" where
  "S3Path_init uri =
     (case S3PATH_PATTERN_match uri of
        None \<Rightarrow> Inl (RuntimeError (''Invliad S3 URI: %'' @ uri))
      | Some (_, b, p) \<Rightarrow> Inr \<lparr>proto = ''s3'', bucket = b, path = normalize_path p\<rparr>)"

text \<open>\<open>S3Path.__str__\<close>, \<open>S3Path.__eq__\<close> and \<open>S3Path.is_valid\<close>.\<close>

definition S3Path_str :: "'a S3Path_scheme \<Rightarrow> string" where
  "S3Path_str p = proto p @ ''://'' @ join ''/'' [bucket p, path p]"

definition S3Path_eq :: "'a S3Path_scheme \<Rightarrow> 'b S3Path_scheme \<Rightarrow> bool" where
  "S3Path_eq p q = (path p = path q \<and> bucket p = bucket q)"

definition is_valid :: "string \<Rightarrow> bool" where
  "is_valid uri = (S3PATH_PATTERN_match uri \<noteq> None)"

text \<open>
  \<open>S3Path.is_file\<close> is decorated with \<open>lru_cache(maxsize=1)\<close>, which builds its
  cache key by hashing the arguments, here \<open>self\<close>. The class defines \<open>__eq__\<close> and
  no \<open>__hash__\<close>, so Python sets \<open>__hash__\<close> to \<open>None\<close> and \<open>hash(self)\<close> raises
  \<open>TypeError\<close> before the cache is looked up or the body,
  \<open>not self.path.endswith("/")\<close>, runs.
\<close>

definition S3Path_hash :: "'a S3Path_scheme \<Rightarrow> error + int" where
  "S3Path_hash p = Inl TypeError"

definition is_file :: "'a S3Path_scheme \<Rightarrow> error + bool" where
  "is_file p =
     (case S3Path_hash p of Inl e \<Rightarrow> Inl e | Inr _ \<Rightarrow> Inr (\<not> endswith (path p) ''/''))"

text \<open>
  A path has a run of two or more separators exactly when two neighbours are both
  \<open>/\<close>.
\<close>

fun double_slash :: "string \<Rightarrow> bool" where
  "double_slash (a # b # cs) = ((a = slash \<and> b = slash) \<or> double_slash (b # cs))"
| "double_slash _ = False"

text \<open>
  The spec's reading of the normalization, for comparison with \<open>normalize_path\<close>:
  going through the raw path, a separator is dropped exactly when the character before
  it is a separator, so that every run of separators leaves its first one and all other
  characters stay in place. \<open>collapse_after prev raw\<close> does this for a raw path that
  comes after the character \<open>prev\<close>, if any.
\<close>

definition collapse_after :: "char option \<Rightarrow> string \<Rightarrow> string" where
  "collapse_after prev raw =
     map snd (filter (\<lambda>(p, c). \<not> (p = Some slash \<and> c = slash))
                (zip (prev # map Some raw) raw))"

definition collapse_runs_spec :: "string \<Rightarrow> string" where
  "collapse_runs_spec raw = collapse_after None raw"

section \<open>The storage client and the bulk copy\<close>

text \<open>
  The boto3 client is a collaborator: \<open>paginate\<close> gives, for a bucket and a prefix, the
  pages of the listing, each with its \<open>Contents\<close> or without the key. The calls made to
  the client are recorded in order.
\<close>

record s3_object =
  Key :: string
  Size :: nat

type_synonym page = "s3_object list option"

type_synonym paginate = "string \<Rightarrow> string \<Rightarrow> int \<Rightarrow> int \<Rightarrow> page list"

datatype s3_call =
    Paginate string string
  | Copy string string string string

text \<open>
  \<open>S3Path.ls\<close>: the objects of the pages, in order; the generator returns at the first
  page that has no \<open>Contents\<close>.
\<close>

fun ls_pages :: "page list \<Rightarrow> s3_object list" where
  "ls_pages [] = []"
| "ls_pages (None # ps) = []"
| "ls_pages (Some contents # ps) = contents @ ls_pages ps"

definition ls :: "paginate \<Rightarrow> 'a S3Path_scheme \<Rightarrow> int \<Rightarrow> int \<Rightarrow> s3_object list" where
  "ls client self page_size max_items = ls_pages (client (bucket self) (path self) max_items page_size)"

text \<open>
  \<open>S3Path.cp\<close>: the loop body for one listed object gives the copy call it issues
  (source bucket, source key, destination bucket, destination key), or none.
\<close>

definition cp_object :: "'a S3Path_scheme \<Rightarrow> 'b S3Path_scheme \<Rightarrow> string list \<Rightarrow> s3_object \<Rightarrow> s3_call list" where
  "cp_object self dest_path excludes obj =
     (if list_ex (\<lambda>excluded. endswith (Key obj) excluded) excludes then []
      else [Copy (bucket self) (Key obj) (bucket dest_path)
              (path dest_path @ replace (Key obj) (path self) [])])"

definition cp :: "paginate \<Rightarrow> 'a S3Path_scheme \<Rightarrow> 'b S3Path_scheme \<Rightarrow> string list \<Rightarrow> s3_call list" where
  "cp client self dest_path excludes =
     Paginate (bucket self) (path self) #
     concat (map (cp_object self dest_path excludes) (ls client self 100 1000000))"

text \<open>\<open>S3BotoClient.cp\<close>; \<open>!=\<close> is the negation of \<open>__eq__\<close>.\<close>

definition S3BotoClient_cp :: "paginate \<Rightarrow> string \<Rightarrow> string \<Rightarrow> error + s3_call list" where
  "S3BotoClient_cp client s3_src_uri s3_dst_uri =
     (if is_valid s3_src_uri \<and> is_valid s3_dst_uri then
        (case S3Path_init s3_src_uri of
           Inl e \<Rightarrow> Inl e
         | Inr s3_src_path \<Rightarrow>
             (case S3Path_init s3_dst_uri of
                Inl e \<Rightarrow> Inl e
              | Inr s3_dst_path \<Rightarrow>
                  if \<not> S3Path_eq s3_src_path s3_dst_path
                  then Inr (cp client s3_src_path s3_dst_path [''_SUCCESS''])
                  else Inr []))
      else Inl (InvalidS3PathError
                  (''URI: '' @ s3_src_uri @ '' or '' @ s3_dst_uri @ '' is invalid format'')))"

section \<open>Dates and times\<close>

text \<open>
  \<open>datetime\<close> and \<open>timedelta\<close> of the standard library, as far as the code uses them.
  A \<open>datetime\<close> holds its calendar fields; the ordinal of a date counts days from
  0001-01-01, which is day 1, in the proleptic Gregorian calendar, up to
  \<open>MAXORDINAL\<close>, which is 9999-12-31.
\<close>

record datetime =
  year :: int
  month :: int
  day :: int
  hour :: int
  minute :: int
  second :: int
  microsecond :: int

definition DAYS_IN_MONTH :: "int list" where
  "DAYS_IN_MONTH = [-1, 31, 28, 31, 30, 31, 30, 31, 31, 30, 31, 30, 31]"

definition DAYS_BEFORE_MONTH :: "int list" where
  "DAYS_BEFORE_MONTH = [-1, 0, 31, 59, 90, 120, 151, 181, 212, 243, 273, 304, 334]"

definition DI400Y :: int where "DI400Y = 146097"
definition DI100Y :: int where "DI100Y = 36524"
definition DI4Y :: int where "DI4Y = 1461"
definition MAXORDINAL :: int where "MAXORDINAL = 3652059"

definition is_leap :: "int \<Rightarrow> bool" where
  "is_leap y = (y mod 4 = 0 \<and> (y mod 100 \<noteq> 0 \<or> y mod 400 = 0))"

definition days_before_year :: "int \<Rightarrow> int" where
  "days_before_year yr = (let y = yr - 1 in y * 365 + y div 4 - y div 100 + y div 400)"

definition days_in_month :: "int \<Rightarrow> int \<Rightarrow> int" where
  "days_in_month y m = (if m = 2 \<and> is_leap y then 29 else DAYS_IN_MONTH ! nat m)"

definition days_before_month :: "int \<Rightarrow> int \<Rightarrow> int" where
  "days_before_month y m = DAYS_BEFORE_MONTH ! nat m + (if m > 2 \<and> is_leap y then 1 else 0)"

definition ymd2ord :: "int \<Rightarrow> int \<Rightarrow> int \<Rightarrow> int" where
  "ymd2ord y m d = days_before_year y + days_before_month y m + d"

definition ord2ymd :: "int \<Rightarrow> int \<times> int \<times> int" where
  "ord2ymd n0 =
     (let n = n0 - 1;
          n400 = n div DI400Y; n = n mod DI400Y;
          y = n400 * 400 + 1;
          n100 = n div DI100Y; n = n mod DI100Y;
          n4 = n div DI4Y; n = n mod DI4Y;
          n1 = n div 365; n = n mod 365;
          y = y + n100 * 100 + n4 * 4 + n1
      in if n1 = 4 \<or> n100 = 4 then (y - 1, 12, 31)
         else
           (let leapyear = (n1 = 3 \<and> (n4 \<noteq> 24 \<or> n100 = 3));
                m = (n + 50) div 32;
                preceding = DAYS_BEFORE_MONTH ! nat m + (if m > 2 \<and> leapyear then 1 else 0)
            in if preceding > n
               then (let m = m - 1;
                         preceding = preceding - (DAYS_IN_MONTH ! nat m + (if m = 2 \<and> leapyear then 1 else 0))
                     in (y, m, n - preceding + 1))
               else (y, m, n - preceding + 1)))"

definition toordinal :: "datetime \<Rightarrow> int" where
  "toordinal d = ymd2ord (year d) (month d) (day d)"

text \<open>
  \<open>timedelta(days=value)\<close> raises \<open>OverflowError\<close> beyond 999999999 days either way;
  \<open>dt + td\<close> raises it when the resulting day is not in \<open>1..MAXORDINAL\<close>; \<open>dt - td\<close>
  is \<open>dt + (-td)\<close>. A whole number of days leaves the time of day as it is.
\<close>

definition timedelta :: "int \<Rightarrow> error + int" where
  "timedelta days = (if \<bar>days\<bar> \<le> 999999999 then Inr days else Inl OverflowError)"

definition datetime_add :: "datetime \<Rightarrow> int \<Rightarrow> error + datetime" where
  "datetime_add d td =
     (let days = toordinal d + td
      in if 0 < days \<and> days \<le> MAXORDINAL
         then (case ord2ymd days of (y, m, dd) \<Rightarrow> Inr (d\<lparr>year := y, month := m, day := dd\<rparr>))
         else Inl OverflowError)"

definition datetime_sub :: "datetime \<Rightarrow> int \<Rightarrow> error + datetime" where
  "datetime_sub d td = datetime_add d (- td)"

text \<open>
  Decimal numerals: \<open>str(n)\<close>, \<open>int(s)\<close> on a string of digits, and the zero-padded
  fields of \<open>strftime\<close>. The C library formats \<open>%Y\<close>; glibc writes the year as a
  decimal number without padding, so a year below 1000 has fewer than four digits. The
  other fields are padded to two digits.
\<close>

definition digit_char :: "nat \<Rightarrow> char" where
  "digit_char n = char_of (48 + n)"

definition isdigit :: "char \<Rightarrow> bool" where
  "isdigit c = (48 \<le> (of_char c :: nat) \<and> (of_char c :: nat) \<le> 57)"

fun str_nat :: "nat \<Rightarrow> string" where
  "str_nat n = (if n < 10 then [digit_char n] else str_nat (n div 10) @ [digit_char (n mod 10)])"

declare str_nat.simps [simp del]

definition str_int :: "int \<Rightarrow> string" where
  "str_int i = (if i < 0 then CHR ''-'' # str_nat (nat (- i)) else str_nat (nat i))"

definition int_of_digits :: "string \<Rightarrow> int" where
  "int_of_digits s = foldl (\<lambda>a c. 10 * a + (int (of_char c) - 48)) 0 s"

definition zero_pad :: "nat \<Rightarrow> int \<Rightarrow> string" where
  "zero_pad w i = (let s = str_int i in replicate (w - length s) CHR ''0'' @ s)"

definition strftime_DATE_STR :: "datetime \<Rightarrow> string" where
  "strftime_DATE_STR d =
     str_int (year d) @ ''-'' @ zero_pad 2 (month d) @ ''-'' @ zero_pad 2 (day d)"

definition strftime_DATETIME_STR :: "datetime \<Rightarrow> string" where
  "strftime_DATETIME_STR d =
     strftime_DATE_STR d @ ''_'' @ zero_pad 2 (hour d) @ ''-'' @ zero_pad 2 (minute d)
       @ ''-'' @ zero_pad 2 (second d)"

text \<open>
  A string is the decimal numeral of a number when it consists of digits only, at
  least one, and these denote the number.
\<close>

definition decimal :: "string \<Rightarrow> int \<Rightarrow> bool" where
  "decimal s n = (s \<noteq> [] \<and> list_all isdigit s \<and> int_of_digits s = n)"

section \<open>S3DatePath\<close>

datatype DateType = DATEID | DATETIMEID

datatype DateOp = NONE | PLUS | MINUS

definition DateType_name :: "DateType \<Rightarrow> string" where
  "DateType_name t = (case t of DATEID \<Rightarrow> ''DATEID'' | DATETIMEID \<Rightarrow> ''DATETIMEID'')"

text \<open>\<open>DateType[dtype]\<close>: the member of that name, \<open>KeyError\<close> otherwise.\<close>

definition DateType_getitem :: "string \<Rightarrow> DateType option" where
  "DateType_getitem s =
     (if s = ''DATEID'' then Some DATEID else if s = ''DATETIMEID'' then Some DATETIMEID else None)"

text \<open>\<open>DateOp.from_str\<close>; the label is \<open>None\<close> when the group did not take part.\<close>

definition from_str :: "string option \<Rightarrow> DateOp" where
  "from_str label =
     (if label = Some ''+'' then PLUS else if label = Some ''-'' then MINUS else NONE)"

record S3DateParam =
  p_idx :: nat
  p_dt :: DateType
  p_sign :: DateOp
  p_value :: int

record S3DateValue =
  v_idx :: nat
  v_token :: string
  v_value :: string

text \<open>
  \<open>PARAM_PATTERN = re.compile(r".*{(DATE(TIME)?ID)(([-+])(\d+))?}.*")\<close>.
  \<open>param_token_at\<close> matches the part from \<open>{\<close> to \<open>}\<close> at the start of its input and
  gives the five groups. The optional parts are greedy, and giving one up never helps:
  after \<open>DATE\<close> comes either \<open>TIMEID\<close> or \<open>ID\<close>; after that either \<open>}\<close> or a sign, all
  the digits that follow (at least one), and \<open>}\<close>.
\<close>

type_synonym groups = "string \<times> string option \<times> string option \<times> string option \<times> string option"

definition param_tail :: "string \<Rightarrow> string option \<Rightarrow> string \<Rightarrow> groups option" where
  "param_tail dtype tm r =
     (case r of
        [] \<Rightarrow> None
      | c # r2 \<Rightarrow>
          if c = CHR ''+'' \<or> c = CHR ''-'' then
            (let digits = takeWhile isdigit r2
             in if digits \<noteq> [] \<and> prefix ''}'' (dropWhile isdigit r2)
                then Some (dtype, tm, Some (c # digits), Some [c], Some digits)
                else None)
          else if c = CHR ''}'' then Some (dtype, tm, None, None, None)
          else None)"

definition param_token_at :: "string \<Rightarrow> groups option" where
  "param_token_at s =
     (if prefix ''{DATETIMEID'' s then param_tail ''DATETIMEID'' (Some ''TIME'') (drop 11 s)
      else if prefix ''{DATEID'' s then param_tail ''DATEID'' None (drop 7 s)
      else None)"

text \<open>
  The leading \<open>.*\<close> is greedy and does not cross a newline: the match is the
  rightmost token that starts on the first line. The trailing \<open>.*\<close> always matches.
\<close>

fun PARAM_PATTERN_match :: "string \<Rightarrow> groups option" where
  "PARAM_PATTERN_match [] = None"
| "PARAM_PATTERN_match (c # cs) =
     (if c = newline then None
      else (case PARAM_PATTERN_match cs of
              Some g \<Rightarrow> Some g
            | None \<Rightarrow> param_token_at (c # cs)))"

record S3DatePath = S3Path +
  path_lst :: "string list"
  params :: "S3DateParam list"

text \<open>
  \<open>_parse_params\<close>: the loop over \<open>enumerate(path_lst)\<close>, from index \<open>idx\<close> on. Where
  the test on the segment holds and the pattern does not match, \<open>.groups()\<close> is called
  on \<open>None\<close> and raises \<open>AttributeError\<close>.
\<close>

fun parse_params_from :: "nat \<Rightarrow> string list \<Rightarrow> error + S3DateParam list" where
  "parse_params_from idx [] = Inr []"
| "parse_params_from idx (val # rest) =
     (if (is_in ''{DATEID'' val \<or> is_in ''{DATETIMEID'' val) \<and> is_in ''}'' val then
        (case PARAM_PATTERN_match val of
           None \<Rightarrow> Inl AttributeError
         | Some (dtype, _, _, sign, v) \<Rightarrow>
             (case DateType_getitem dtype of
                None \<Rightarrow> Inl KeyError
              | Some dtype \<Rightarrow>
                  (case parse_params_from (Suc idx) rest of
                     Inl e \<Rightarrow> Inl e
                   | Inr ps \<Rightarrow>
                       Inr (\<lparr>p_idx = idx, p_dt = dtype, p_sign = from_str sign,
                             p_value = (case v of Some ds \<Rightarrow> int_of_digits ds | None \<Rightarrow> 0)\<rparr> # ps))))
      else parse_params_from (Suc idx) rest)"

definition parse_params :: "string list \<Rightarrow> error + S3DateParam list" where
  "parse_params lst = parse_params_from 0 lst"

text \<open>\<open>S3DatePath.__init__\<close>.\<close>

definition S3DatePath_init :: "string \<Rightarrow> error + S3DatePath" where
  "S3DatePath_init uri =
     (case S3Path_init uri of
        Inl e \<Rightarrow> Inl e
      | Inr p \<Rightarrow>
          (let lst = filter (\<lambda>p. strip p \<noteq> []) (split_on slash (path p))
           in case parse_params lst of
                Inl e \<Rightarrow> Inl e
              | Inr ps \<Rightarrow>
                  Inr \<lparr>proto = proto p, bucket = bucket p, path = path p,
                       path_lst = lst, params = ps\<rparr>))"

text \<open>\<open>_compute_offset\<close>, \<open>_reconstruct_match_token\<close> and \<open>_extract_value\<close>.\<close>

definition compute_offset :: "datetime \<Rightarrow> DateOp \<Rightarrow> int \<Rightarrow> error + datetime" where
  "compute_offset d op v =
     (case timedelta v of
        Inl e \<Rightarrow> Inl e
      | Inr td \<Rightarrow> if op = MINUS then datetime_sub d td else datetime_add d td)"

definition reconstruct_match_token :: "S3DateParam \<Rightarrow> string" where
  "reconstruct_match_token param =
     (let lst = [DateType_name (p_dt param)];
          lst = (if p_sign param = PLUS \<or> p_sign param = MINUS
                 then lst @ [if p_sign param = PLUS then ''+'' else ''-''] @ [str_int (p_value param)]
                 else lst)
      in ''{'' @ concat lst @ ''}'')"

definition extract_value :: "S3DateParam \<Rightarrow> datetime \<Rightarrow> error + S3DateValue" where
  "extract_value param d =
     (case (if p_sign param = NONE then Inr d
            else compute_offset d (p_sign param) (p_value param)) of
        Inl e \<Rightarrow> Inl e
      | Inr ts \<Rightarrow>
          Inr \<lparr>v_idx = p_idx param,
               v_token = reconstruct_match_token param,
               v_value = (if p_dt param = DATEID then strftime_DATE_STR ts
                          else strftime_DATETIME_STR ts)\<rparr>)"

text \<open>
  \<open>resolve_dateid\<close>: the list comprehension runs first, and its first exception ends
  the call; then the loop assigns to \<open>self._path_lst[el.idx]\<close>, one element after
  the other. The call gives the string and the object as the loop leaves it.
\<close>

fun map_result :: "('a \<Rightarrow> error + 'b) \<Rightarrow> 'a list \<Rightarrow> error + 'b list" where
  "map_result f [] = Inr []"
| "map_result f (x # xs) =
     (case f x of
        Inl e \<Rightarrow> Inl e
      | Inr y \<Rightarrow> (case map_result f xs of Inl e \<Rightarrow> Inl e | Inr ys \<Rightarrow> Inr (y # ys)))"

fun assign_resolved :: "S3DateValue list \<Rightarrow> string list \<Rightarrow> error + string list" where
  "assign_resolved [] lst = Inr lst"
| "assign_resolved (el # els) lst =
     (if v_idx el < length lst
      then assign_resolved els (lst[v_idx el := replace (lst ! v_idx el) (v_token el) (v_value el)])
      else Inl IndexError)"

definition resolve_dateid :: "S3DatePath \<Rightarrow> datetime \<Rightarrow> error + string \<times> S3DatePath" where
  "resolve_dateid self d =
     (case map_result (\<lambda>param. extract_value param d) (params self) of
        Inl e \<Rightarrow> Inl e
      | Inr resolved_lst \<Rightarrow>
          (case assign_resolved resolved_lst (path_lst self) of
             Inl e \<Rightarrow> Inl e
           | Inr lst \<Rightarrow>
               Inr (proto self @ ''://'' @ join ''/'' [bucket self, join ''/'' lst],
                    self\<lparr>path_lst := lst\<rparr>)))"

text \<open>
  The fields that the constructor of \<open>datetime\<close> accepts, and the days that a
  placeholder shifts by, with their direction.
\<close>

definition valid_datetime :: "datetime \<Rightarrow> bool" where
  "valid_datetime d =
     (1 \<le> year d \<and> year d \<le> 9999 \<and> 1 \<le> month d \<and> month d \<le> 12 \<and>
      1 \<le> day d \<and> day d \<le> days_in_month (year d) (month d) \<and>
      0 \<le> hour d \<and> hour d \<le> 23 \<and> 0 \<le> minute d \<and> minute d \<le> 59 \<and>
      0 \<le> second d \<and> second d \<le> 59 \<and> 0 \<le> microsecond d \<and> microsecond d \<le> 999999)"

definition signed_offset :: "S3DateParam \<Rightarrow> int" where
  "signed_offset param =
     (case p_sign param of NONE \<Rightarrow> 0 | PLUS \<Rightarrow> p_value param | MINUS \<Rightarrow> - p_value param)"

text \<open>
  The offset of the token that the pattern finds in a segment is written without
  leading zeros: it is \<open>0\<close> or does not start with \<open>0\<close>.
\<close>

definition canonical_offset :: "string \<Rightarrow> bool" where
  "canonical_offset val =
     (case PARAM_PATTERN_match val of
        Some (_, _, _, _, Some ds) \<Rightarrow> ds = ''0'' \<or> hd ds \<noteq> CHR ''0''
      | _ \<Rightarrow> True)"

text \<open>The timestamp that the repository's tests resolve against.\<close>

definition test_dt :: datetime where
  "test_dt = \<lparr>year = 2017, month = 11, day = 28, hour = 23, minute = 55, second = 59,
               microsecond = 342380\<rparr>"

section \<open>Properties of the URI parser\<close>

lemma scheme_group_cases:
  "scheme_group uri = Some (s, rest) \<longleftrightarrow> ((s = ''s3://'' \<or> s = ''s3n://'') \<and> uri = s @ rest)"
  by (auto simp: scheme_group_def prefix_def split: if_splits)

lemma match_Some_iff:
  "S3PATH_PATTERN_match uri = Some (s, b, p) \<longleftrightarrow>
     (\<exists>rest. (s = ''s3://'' \<or> s = ''s3n://'') \<and> uri = s @ rest \<and>
        b = takeWhile (\<lambda>c. c \<noteq> slash) rest \<and> b \<noteq> [] \<and>
        p = takeWhile (\<lambda>c. c \<noteq> newline) (case dropWhile (\<lambda>c. c \<noteq> slash) rest of [] \<Rightarrow> [] | _ # r \<Rightarrow> r))"
proof (cases "scheme_group uri")
  case None
  then have "\<not> ((s = ''s3://'' \<or> s = ''s3n://'') \<and> uri = s @ rest)" for rest
    using scheme_group_cases [of uri s rest] by simp
  with None show ?thesis by (auto simp: S3PATH_PATTERN_match_def)
next
  case (Some a)
  obtain s' rest' where a: "a = (s', rest')" by (cases a)
  with Some have c: "(s' = ''s3://'' \<or> s' = ''s3n://'') \<and> uri = s' @ rest'"
    by (simp add: scheme_group_cases)
  have u: "(s = ''s3://'' \<or> s = ''s3n://'') \<and> uri = s @ rest \<longleftrightarrow> s = s' \<and> rest = rest'" for rest
    using c by auto
  have l: "S3PATH_PATTERN_match uri = Some (s, b, p) \<longleftrightarrow>
      s = s' \<and> b = takeWhile (\<lambda>c. c \<noteq> slash) rest' \<and> b \<noteq> [] \<and>
      p = takeWhile (\<lambda>c. c \<noteq> newline) (case dropWhile (\<lambda>c. c \<noteq> slash) rest' of [] \<Rightarrow> [] | _ # r \<Rightarrow> r)"
    unfolding S3PATH_PATTERN_match_def Some a by (auto simp: Let_def)
  show ?thesis unfolding l using u by blast
qed

lemma takeWhile_bucket:
  assumes "b \<noteq> []" "slash \<notin> set b" "rest = [] \<or> hd rest = slash"
  shows "takeWhile (\<lambda>c. c \<noteq> slash) (b @ rest) = b"
proof -
  have "takeWhile (\<lambda>c. c \<noteq> slash) (b @ rest) = b @ takeWhile (\<lambda>c. c \<noteq> slash) rest"
    by (rule takeWhile_append2) (use assms(2) in auto)
  then show ?thesis using assms(3) by (cases rest) simp_all
qed

lemma dropWhile_bucket:
  assumes "slash \<notin> set b" "rest = [] \<or> hd rest = slash"
  shows "dropWhile (\<lambda>c. c \<noteq> slash) (b @ rest) = rest"
proof -
  have "dropWhile (\<lambda>c. c \<noteq> slash) (b @ rest) = dropWhile (\<lambda>c. c \<noteq> slash) rest"
    by (rule dropWhile_append2) (use assms(1) in auto)
  then show ?thesis using assms(2) by (cases rest) simp_all
qed

lemma is_valid_grammar:
  "is_valid uri \<longleftrightarrow>
     (\<exists>scheme b rest. (scheme = ''s3'' \<or> scheme = ''s3n'') \<and> b \<noteq> [] \<and> slash \<notin> set b \<and>
        (rest = [] \<or> hd rest = slash) \<and> uri = scheme @ ''://'' @ b @ rest)"
  (is "?L \<longleftrightarrow> ?R")
proof
  assume ?L
  then obtain s b p where m: "S3PATH_PATTERN_match uri = Some (s, b, p)"
    by (auto simp: is_valid_def)
  then obtain rest where r: "s = ''s3://'' \<or> s = ''s3n://''" "uri = s @ rest"
    "b = takeWhile (\<lambda>c. c \<noteq> slash) rest" "b \<noteq> []"
    by (auto simp: match_Some_iff)
  let ?d = "dropWhile (\<lambda>c. c \<noteq> slash) rest"
  have 1: "slash \<notin> set b" using r(3) by (auto dest: set_takeWhileD)
  have 2: "?d = [] \<or> hd ?d = slash" using hd_dropWhile [of "\<lambda>c. c \<noteq> slash" rest] by auto
  have 3: "rest = b @ ?d" using r(3) by simp
  from r(1) show ?R
  proof
    assume "s = ''s3://''"
    with r(2) 3 have "uri = ''s3'' @ ''://'' @ b @ ?d" by simp
    with 1 2 r(4) show ?R by blast
  next
    assume "s = ''s3n://''"
    with r(2) 3 have "uri = ''s3n'' @ ''://'' @ b @ ?d" by simp
    with 1 2 r(4) show ?R by blast
  qed
next
  assume ?R
  then obtain scheme b rest where h: "scheme = ''s3'' \<or> scheme = ''s3n''" "b \<noteq> []" "slash \<notin> set b"
    "rest = [] \<or> hd rest = slash" "uri = scheme @ ''://'' @ b @ rest" by blast
  have "\<exists>s. (s = ''s3://'' \<or> s = ''s3n://'') \<and> uri = s @ (b @ rest)"
    using h(1,5) by auto
  then obtain s where s: "s = ''s3://'' \<or> s = ''s3n://''" "uri = s @ (b @ rest)" by blast
  have "takeWhile (\<lambda>c. c \<noteq> slash) (b @ rest) = b" using h by (intro takeWhile_bucket)
  with s h(2) have "\<exists>p. S3PATH_PATTERN_match uri = Some (s, b, p)"
    unfolding match_Some_iff by metis
  then show ?L by (auto simp: is_valid_def)
qed

lemma init_error_iff:
  "S3Path_init uri = Inl e \<longleftrightarrow> (\<not> is_valid uri \<and> e = RuntimeError (''Invliad S3 URI: %'' @ uri))"
  by (auto simp: S3Path_init_def is_valid_def split: option.splits)

lemma init_ok_iff:
  "(\<exists>p. S3Path_init uri = Inr p) \<longleftrightarrow> is_valid uri"
  by (auto simp: S3Path_init_def is_valid_def split: option.splits)

lemma double_slash_nth:
  "double_slash s \<longleftrightarrow> (\<exists>i. Suc i < length s \<and> s ! i = slash \<and> s ! Suc i = slash)"
proof (induction s rule: double_slash.induct)
  case (1 a b cs)
  show ?case
  proof
    assume "double_slash (a # b # cs)"
    then consider "a = slash \<and> b = slash" | "double_slash (b # cs)" by auto
    then show "\<exists>i. Suc i < length (a # b # cs) \<and> (a # b # cs) ! i = slash \<and> (a # b # cs) ! Suc i = slash"
    proof cases
      case 1
      then show ?thesis by (intro exI [of _ 0]) simp
    next
      case 2
      with "1.IH" obtain i where "Suc i < length (b # cs)" "(b # cs) ! i = slash" "(b # cs) ! Suc i = slash"
        by blast
      then show ?thesis by (intro exI [of _ "Suc i"]) simp
    qed
  next
    assume "\<exists>i. Suc i < length (a # b # cs) \<and> (a # b # cs) ! i = slash \<and> (a # b # cs) ! Suc i = slash"
    then obtain i where i: "Suc i < length (a # b # cs)" "(a # b # cs) ! i = slash" "(a # b # cs) ! Suc i = slash"
      by blast
    show "double_slash (a # b # cs)"
    proof (cases i)
      case 0
      with i show ?thesis by simp
    next
      case (Suc j)
      with i have "Suc j < length (b # cs) \<and> (b # cs) ! j = slash \<and> (b # cs) ! Suc j = slash" by simp
      with "1.IH" show ?thesis by auto
    qed
  qed
qed simp_all

lemma normalize_path_Cons: "\<exists>r. normalize_path (c # cs) = c # r"
  by (cases cs) auto

lemma set_normalize_path: "set (normalize_path s) \<subseteq> set s"
proof (induction s rule: normalize_path.induct)
  case (3 a b cs)
  have "set (dropWhile (\<lambda>c. c = slash) cs) \<subseteq> set cs" by (auto dest: set_dropWhileD)
  with 3 show ?case by auto
qed simp_all

lemma normalize_path_no_double_slash: "\<not> double_slash (normalize_path s)"
proof (induction s rule: normalize_path.induct)
  case (3 a b cs)
  show ?case
  proof (cases "a = slash \<and> b = slash")
    case True
    let ?d = "dropWhile (\<lambda>c. c = slash) cs"
    have ih: "\<not> double_slash (normalize_path ?d)" using 3(1) True by simp
    have e: "normalize_path (a # b # cs) = slash # normalize_path ?d" using True by simp
    show ?thesis
    proof (cases ?d)
      case Nil
      show ?thesis unfolding e Nil by simp
    next
      case (Cons x xs)
      then have "x \<noteq> slash" using hd_dropWhile [of "\<lambda>c. c = slash" cs] by auto
      moreover obtain r where "normalize_path (x # xs) = x # r" using normalize_path_Cons by blast
      ultimately show ?thesis using ih unfolding e Cons by simp
    qed
  next
    case False
    obtain r where r: "normalize_path (b # cs) = b # r" using normalize_path_Cons by blast
    have "\<not> double_slash (normalize_path (b # cs))" using 3(2) False by simp
    with False r show ?thesis by auto
  qed
qed simp_all

lemma normalize_path_fixed: "\<not> double_slash s \<Longrightarrow> normalize_path s = s"
  by (induction s rule: normalize_path.induct) auto

lemma normalize_path_idem: "normalize_path (normalize_path s) = normalize_path s"
  by (rule normalize_path_fixed) (rule normalize_path_no_double_slash)

lemma init_Inr_iff:
  "S3Path_init uri = Inr p \<longleftrightarrow>
     (\<exists>s b raw. S3PATH_PATTERN_match uri = Some (s, b, raw) \<and>
        p = \<lparr>proto = ''s3'', bucket = b, path = normalize_path raw\<rparr>)"
  by (auto simp: S3Path_init_def split: option.splits)

lemma match_str:
  assumes "b \<noteq> []" "slash \<notin> set b" "newline \<notin> set p"
  shows "S3PATH_PATTERN_match (''s3://'' @ b @ ''/'' @ p) = Some (''s3://'', b, p)"
proof -
  have h: "slash # p = [] \<or> hd (slash # p) = slash" by simp
  have t: "takeWhile (\<lambda>c. c \<noteq> slash) (b @ slash # p) = b"
    using takeWhile_bucket [OF assms(1,2) h] .
  have d: "dropWhile (\<lambda>c. c \<noteq> slash) (b @ slash # p) = slash # p"
    using dropWhile_bucket [OF assms(2) h] .
  have n: "takeWhile (\<lambda>c. c \<noteq> newline) p = p" using assms(3) by (auto simp: takeWhile_eq_all_conv)
  have e: "''s3://'' @ b @ ''/'' @ p = ''s3://'' @ (b @ slash # p)" by (simp add: slash_def)
  show ?thesis unfolding match_Some_iff e
    by (rule exI [of _ "b @ slash # p"]) (simp add: t d n assms(1))
qed

lemma init_str:
  assumes "S3Path_init uri = Inr p"
  shows "S3Path_init (S3Path_str p) = Inr p"
proof -
  from assms obtain s b raw where m: "S3PATH_PATTERN_match uri = Some (s, b, raw)"
    and p: "p = \<lparr>proto = ''s3'', bucket = b, path = normalize_path raw\<rparr>"
    unfolding init_Inr_iff by blast
  from m obtain rest where r: "b = takeWhile (\<lambda>c. c \<noteq> slash) rest" "b \<noteq> []"
    "raw = takeWhile (\<lambda>c. c \<noteq> newline) (case dropWhile (\<lambda>c. c \<noteq> slash) rest of [] \<Rightarrow> [] | _ # r \<Rightarrow> r)"
    unfolding match_Some_iff by blast
  have 1: "slash \<notin> set b" using r(1) by (auto dest: set_takeWhileD)
  have "newline \<notin> set raw" using r(3) by (auto dest: set_takeWhileD)
  then have 2: "newline \<notin> set (normalize_path raw)" using set_normalize_path by blast
  have "S3Path_str p = ''s3://'' @ b @ ''/'' @ normalize_path raw" by (simp add: S3Path_str_def p)
  then have "S3PATH_PATTERN_match (S3Path_str p) = Some (''s3://'', b, normalize_path raw)"
    using match_str [OF r(2) 1 2] by simp
  then show ?thesis by (simp add: S3Path_init_def p normalize_path_idem)
qed

lemma split_on_not_Nil: "split_on c s \<noteq> []"
  by (subst split_on.simps) (simp split: list.splits)

lemma join_Cons: "ys \<noteq> [] \<Longrightarrow> join sep (x # ys) = x @ sep @ join sep ys"
  by (cases ys) simp_all

lemma split_on_Nil:
  assumes "dropWhile (\<lambda>x. x \<noteq> c) s = []"
  shows "split_on c s = [s]"
proof -
  have "takeWhile (\<lambda>x. x \<noteq> c) s @ dropWhile (\<lambda>x. x \<noteq> c) s = s" by (rule takeWhile_dropWhile_id)
  then have t: "takeWhile (\<lambda>x. x \<noteq> c) s = s" unfolding assms by simp
  show ?thesis by (subst split_on.simps) (simp only: assms t list.case)
qed

lemma split_on_Cons:
  assumes "dropWhile (\<lambda>x. x \<noteq> c) s = x # r"
  shows "split_on c s = takeWhile (\<lambda>x. x \<noteq> c) s # split_on c r"
  by (subst split_on.simps) (simp only: assms list.case)

lemma join_split_on: "join [c] (split_on c s) = s"
proof (induction c s rule: split_on.induct)
  case (1 c s)
  show ?case
  proof (cases "dropWhile (\<lambda>x. x \<noteq> c) s")
    case Nil
    show ?thesis unfolding split_on_Nil [OF Nil] by simp
  next
    case (Cons x r)
    then have x: "x = c" using hd_dropWhile [of "\<lambda>x. x \<noteq> c" s] by auto
    have "join [c] (split_on c s) = takeWhile (\<lambda>x. x \<noteq> c) s @ [c] @ join [c] (split_on c r)"
      unfolding split_on_Cons [OF Cons] by (simp add: join_Cons split_on_not_Nil)
    also have "\<dots> = takeWhile (\<lambda>x. x \<noteq> c) s @ c # r" using 1 [OF Cons] by simp
    also have "\<dots> = takeWhile (\<lambda>x. x \<noteq> c) s @ dropWhile (\<lambda>x. x \<noteq> c) s" unfolding Cons x by simp
    finally show ?thesis by simp
  qed
qed

lemma resolve_no_params:
  "params p = [] \<Longrightarrow>
     resolve_dateid p d = Inr (proto p @ ''://'' @ bucket p @ ''/'' @ join ''/'' (path_lst p), p)"
  by (simp add: resolve_dateid_def)

lemma S3DatePath_init_Inr:
  assumes "S3DatePath_init uri = Inr p"
  shows "S3Path_init uri = Inr \<lparr>proto = proto p, bucket = bucket p, path = path p\<rparr>"
    and "path_lst p = filter (\<lambda>s. strip s \<noteq> []) (split_on slash (path p))"
    and "parse_params (path_lst p) = Inr (params p)"
    and "proto p = ''s3''"
  using assms
  by (auto simp: S3DatePath_init_def Let_def S3Path_init_def split: sum.splits option.splits)

lemma is_file_raises: "is_file p = Inl TypeError"
  by (simp add: is_file_def S3Path_hash_def)

section \<open>Properties of the calendar and of decimal numerals\<close>

lemma dby_decomp:
  fixes a b c e :: int
  assumes "0 \<le> b" "b \<le> 3" "0 \<le> c" "c \<le> 24" "0 \<le> e" "e \<le> 3"
  shows "days_before_year (400 * a + 100 * b + 4 * c + e + 1) = 146097 * a + 36524 * b + 1461 * c + 365 * e"
proof -
  let ?y = "400 * a + 100 * b + 4 * c + e"
  have 1: "?y div 4 = 100 * a + 25 * b + c" using assms by linarith
  have 2: "?y div 100 = 4 * a + b" using assms by linarith
  have 3: "?y div 400 = a" using assms by linarith
  show ?thesis unfolding days_before_year_def Let_def using 1 2 3 by simp
qed

lemma mod_range:
  fixes x m :: int
  assumes "0 < x" "x \<le> m"
  shows "x mod m = 0 \<longleftrightarrow> x = m"
proof (cases "x = m")
  case True
  then show ?thesis by simp
next
  case False
  with assms have "x mod m = x" by (intro mod_pos_pos_trivial) auto
  with False assms show ?thesis by simp
qed

lemma leap_decomp:
  fixes a b c e :: int
  assumes "0 \<le> b" "b \<le> 3" "0 \<le> c" "c \<le> 24" "0 \<le> e" "e \<le> 3"
  shows "is_leap (400 * a + 100 * b + 4 * c + e + 1) \<longleftrightarrow> (e = 3 \<and> (c \<noteq> 24 \<or> b = 3))"
proof -
  let ?y = "400 * a + 100 * b + 4 * c + e + 1"
  have e4: "?y = 4 * (100 * a + 25 * b + c) + (e + 1)" by simp
  have e100: "?y = 100 * (4 * a + b) + (4 * c + e + 1)" by simp
  have e400: "?y = 400 * a + (100 * b + 4 * c + e + 1)" by simp
  have 1: "?y mod 4 = (e + 1) mod 4" by (subst e4) (rule mod_mult_self4)
  have 2: "?y mod 100 = (4 * c + e + 1) mod 100" by (subst e100) (rule mod_mult_self4)
  have 3: "?y mod 400 = (100 * b + 4 * c + e + 1) mod 400" by (subst e400) (rule mod_mult_self4)
  have 4: "(e + 1) mod 4 = 0 \<longleftrightarrow> e + 1 = 4" using assms by (intro mod_range) auto
  have 5: "(4 * c + e + 1) mod 100 = 0 \<longleftrightarrow> 4 * c + e + 1 = 100" using assms by (intro mod_range) auto
  have 6: "(100 * b + 4 * c + e + 1) mod 400 = 0 \<longleftrightarrow> 100 * b + 4 * c + e + 1 = 400"
    using assms by (intro mod_range) auto
  show ?thesis unfolding is_leap_def 1 2 3 4 5 6 using assms by auto
qed

lemma month_of_offset:
  fixes k :: int and leap :: bool
  assumes "0 \<le> k" "k < 365"
  defines "m0 \<equiv> (k + 50) div 32"
  defines "p0 \<equiv> DAYS_BEFORE_MONTH ! nat m0 + (if m0 > 2 \<and> leap then 1 else 0)"
  defines "res \<equiv> (if p0 > k
                   then (let m = m0 - 1;
                             p = p0 - (DAYS_IN_MONTH ! nat m + (if m = 2 \<and> leap then 1 else 0))
                         in (m, k - p + 1))
                   else (m0, k - p0 + 1))"
  shows "1 \<le> fst res \<and> fst res \<le> 12 \<and> 1 \<le> snd res \<and>
         snd res \<le> (if fst res = 2 \<and> leap then 29 else DAYS_IN_MONTH ! nat (fst res)) \<and>
         DAYS_BEFORE_MONTH ! nat (fst res) + (if fst res > 2 \<and> leap then 1 else 0) + snd res = k + 1"
proof -
  have r: "32 * m0 \<le> k + 50" "k + 50 < 32 * m0 + 32" unfolding m0_def by linarith+
  with assms(1,2) have "1 \<le> m0" "m0 \<le> 12" by linarith+
  then consider "m0 = 1" | "m0 = 2" | "m0 = 3" | "m0 = 4" | "m0 = 5" | "m0 = 6"
    | "m0 = 7" | "m0 = 8" | "m0 = 9" | "m0 = 10" | "m0 = 11" | "m0 = 12" by atomize_elim presburger
  then show ?thesis
  proof cases
    case 1 with r assms(1) show ?thesis
      unfolding res_def p0_def by (simp add: DAYS_BEFORE_MONTH_def DAYS_IN_MONTH_def)
  next
    case 2 with r show ?thesis
      unfolding res_def p0_def by (simp add: DAYS_BEFORE_MONTH_def DAYS_IN_MONTH_def Let_def)
  next
    case 3 with r show ?thesis
      unfolding res_def p0_def by (simp add: DAYS_BEFORE_MONTH_def DAYS_IN_MONTH_def Let_def)
  next
    case 4 with r show ?thesis
      unfolding res_def p0_def by (simp add: DAYS_BEFORE_MONTH_def DAYS_IN_MONTH_def Let_def)
  next
    case 5 with r show ?thesis
      unfolding res_def p0_def by (simp add: DAYS_BEFORE_MONTH_def DAYS_IN_MONTH_def Let_def)
  next
    case 6 with r show ?thesis
      unfolding res_def p0_def by (simp add: DAYS_BEFORE_MONTH_def DAYS_IN_MONTH_def Let_def)
  next
    case 7 with r show ?thesis
      unfolding res_def p0_def by (simp add: DAYS_BEFORE_MONTH_def DAYS_IN_MONTH_def Let_def)
  next
    case 8 with r show ?thesis
      unfolding res_def p0_def by (simp add: DAYS_BEFORE_MONTH_def DAYS_IN_MONTH_def Let_def)
  next
    case 9 with r show ?thesis
      unfolding res_def p0_def by (simp add: DAYS_BEFORE_MONTH_def DAYS_IN_MONTH_def Let_def)
  next
    case 10 with r show ?thesis
      unfolding res_def p0_def by (simp add: DAYS_BEFORE_MONTH_def DAYS_IN_MONTH_def Let_def)
  next
    case 11 with r show ?thesis
      unfolding res_def p0_def by (simp add: DAYS_BEFORE_MONTH_def DAYS_IN_MONTH_def Let_def)
  next
    case 12 with r assms(2) show ?thesis
      unfolding res_def p0_def by (simp add: DAYS_BEFORE_MONTH_def DAYS_IN_MONTH_def Let_def)
  qed
qed

lemma ord2ymd_correct:
  assumes "1 \<le> n"
  shows "\<exists>y m d. ord2ymd n = (y, m, d) \<and> 1 \<le> y \<and> (n \<le> MAXORDINAL \<longrightarrow> y \<le> 9999) \<and>
           1 \<le> m \<and> m \<le> 12 \<and> 1 \<le> d \<and> d \<le> days_in_month y m \<and> ymd2ord y m d = n"
proof -
  define n0 where "n0 = n - 1"
  define a where "a = n0 div 146097"
  define r where "r = n0 mod 146097"
  define b where "b = r div 36524"
  define r2 where "r2 = r mod 36524"
  define c where "c = r2 div 1461"
  define r3 where "r3 = r2 mod 1461"
  define e where "e = r3 div 365"
  define k where "k = r3 mod 365"
  define leap where "leap = (e = 3 \<and> (c \<noteq> 24 \<or> b = 3))"
  define m0 where "m0 = (k + 50) div 32"
  define p0 where "p0 = DAYS_BEFORE_MONTH ! nat m0 + (if m0 > 2 \<and> leap then 1 else 0)"
  define res where "res = (if p0 > k
                   then (let m = m0 - 1;
                             p = p0 - (DAYS_IN_MONTH ! nat m + (if m = 2 \<and> leap then 1 else 0))
                         in (m, k - p + 1))
                   else (m0, k - p0 + 1))"
  define Y0 where "Y0 = a * 400 + 1 + b * 100 + c * 4 + e"
  define Y where "Y = 400 * a + 100 * b + 4 * c + e + 1"
  have YY: "Y0 = Y" by (simp add: Y0_def Y_def)
  have "ord2ymd n =
      (if e = 4 \<or> b = 4 then (Y0 - 1, 12, 31)
       else if p0 > k
            then (Y0, m0 - 1,
                  k - (p0 - (DAYS_IN_MONTH ! nat (m0 - 1) + (if m0 - 1 = 2 \<and> leap then 1 else 0))) + 1)
            else (Y0, m0, k - p0 + 1))"
    by (simp only: ord2ymd_def Let_def DI400Y_def DI100Y_def DI4Y_def
      Y0_def p0_def m0_def leap_def k_def e_def r3_def c_def r2_def b_def r_def a_def n0_def)
  then have unfold: "ord2ymd n = (if e = 4 \<or> b = 4 then (Y - 1, 12, 31) else (Y, fst res, snd res))"
    unfolding YY res_def Let_def by (simp split: if_splits)
  have n0: "0 \<le> n0" using assms by (simp add: n0_def)
  have d1: "n0 = 146097 * a + r" "0 \<le> r" "r < 146097" unfolding a_def r_def by simp_all
  have d2: "r = 36524 * b + r2" "0 \<le> r2" "r2 < 36524" unfolding b_def r2_def by simp_all
  have d3: "r2 = 1461 * c + r3" "0 \<le> r3" "r3 < 1461" unfolding c_def r3_def by simp_all
  have d4: "r3 = 365 * e + k" "0 \<le> k" "k < 365" unfolding e_def k_def by simp_all
  have a0: "0 \<le> a" using n0 d1 by linarith
  have b0: "0 \<le> b" "b \<le> 4" using d1 d2 by linarith+
  have c0: "0 \<le> c" "c \<le> 24" using d2 d3 by linarith+
  have e0: "0 \<le> e" "e \<le> 4" using d3 d4 by linarith+
  have nn: "n = 146097 * a + 36524 * b + 1461 * c + 365 * e + k + 1"
    using d1(1) d2(1) d3(1) d4(1) by (simp add: n0_def)
  show ?thesis
  proof (cases "b = 4")
    case True
    with d1 d2 d3 d4 c0 e0 have z: "c = 0" "e = 0" "k = 0" by linarith+
    have Y1: "Y - 1 = 400 * a + 100 * 3 + 4 * 24 + 3 + 1" by (simp add: Y_def True z)
    have dby: "days_before_year (Y - 1) = 146097 * a + 36524 * 3 + 1461 * 24 + 365 * 3"
      unfolding Y1 by (rule dby_decomp) simp_all
    have lp: "is_leap (Y - 1)"
      unfolding Y1 by (subst leap_decomp) simp_all
    have "ymd2ord (Y - 1) 12 31 = n"
      unfolding ymd2ord_def dby nn True z
      by (simp add: days_before_month_def lp DAYS_BEFORE_MONTH_def)
    moreover have "days_in_month (Y - 1) 12 = 31"
      by (simp add: days_in_month_def DAYS_IN_MONTH_def)
    moreover have "1 \<le> Y - 1" using a0 by (simp add: Y1)
    moreover have "n \<le> MAXORDINAL \<longrightarrow> Y - 1 \<le> 9999"
      using nn True z a0 by (auto simp: Y1 MAXORDINAL_def)
    ultimately show ?thesis using unfold True by simp
  next
    case b4: False
    with b0 have b3: "b \<le> 3" by simp
    show ?thesis
    proof (cases "e = 4")
      case True
      with d3 d4 have k: "k = 0" by linarith
      from True d2 d3 d4 c0 have c23: "c \<le> 23" by linarith
      have Y1: "Y - 1 = 400 * a + 100 * b + 4 * c + 3 + 1" by (simp add: Y_def True)
      have dby: "days_before_year (Y - 1) = 146097 * a + 36524 * b + 1461 * c + 365 * 3"
        unfolding Y1 using b0 b3 c0 by (intro dby_decomp) simp_all
      have lp: "is_leap (Y - 1)"
        unfolding Y1 using b0 b3 c0 c23 by (subst leap_decomp) simp_all
      have "ymd2ord (Y - 1) 12 31 = n"
        unfolding ymd2ord_def dby nn True k
        by (simp add: days_before_month_def lp DAYS_BEFORE_MONTH_def)
      moreover have "days_in_month (Y - 1) 12 = 31"
        by (simp add: days_in_month_def DAYS_IN_MONTH_def)
      moreover have "1 \<le> Y - 1" using a0 b0 c0 by (simp add: Y1)
      moreover have "n \<le> MAXORDINAL \<longrightarrow> Y - 1 \<le> 9999"
        using nn True k a0 b0 b3 c0 c23 by (auto simp: Y1 MAXORDINAL_def)
      ultimately show ?thesis using unfold True by simp
    next
      case False
      with e0 have e3: "e \<le> 3" by simp
      have dby: "days_before_year Y = 146097 * a + 36524 * b + 1461 * c + 365 * e"
        unfolding Y_def using b0 b3 c0 e0 e3 by (intro dby_decomp) simp_all
      have lp: "is_leap Y = leap"
        unfolding Y_def leap_def using b0 b3 c0 e0 e3 by (intro leap_decomp) simp_all
      have mo: "1 \<le> fst res \<and> fst res \<le> 12 \<and> 1 \<le> snd res \<and>
         snd res \<le> (if fst res = 2 \<and> leap then 29 else DAYS_IN_MONTH ! nat (fst res)) \<and>
         DAYS_BEFORE_MONTH ! nat (fst res) + (if fst res > 2 \<and> leap then 1 else 0) + snd res = k + 1"
        unfolding res_def p0_def m0_def using d4(2,3) by (rule month_of_offset)
      have "ymd2ord Y (fst res) (snd res) = n"
        unfolding ymd2ord_def dby nn days_before_month_def lp using mo by simp
      moreover have "snd res \<le> days_in_month Y (fst res)"
        unfolding days_in_month_def lp using mo by simp
      moreover have "1 \<le> Y" using a0 b0 c0 e0 by (simp add: Y_def)
      moreover have "n \<le> MAXORDINAL \<longrightarrow> Y \<le> 9999"
      proof
        assume "n \<le> MAXORDINAL"
        then have le: "146097 * a + 36524 * b + 1461 * c + 365 * e + k + 1 \<le> 3652059"
          using nn by (simp add: MAXORDINAL_def)
        show "Y \<le> 9999"
          unfolding Y_def using le a0 b0 b3 c0 e0 e3 d4(2) by linarith
      qed
      ultimately show ?thesis using unfold False b4 mo
        by (intro exI [of _ Y] exI [of _ "fst res"] exI [of _ "snd res"]) simp
    qed
  qed
qed

lemma of_char_digit_char: "d < 10 \<Longrightarrow> (of_char (digit_char d) :: nat) = 48 + d"
  by (simp add: digit_char_def)

lemma isdigit_digit_char: "d < 10 \<Longrightarrow> isdigit (digit_char d)"
  by (simp add: isdigit_def of_char_digit_char)

lemma digit_char_of_char:
  assumes "isdigit c"
  shows "digit_char (of_char c - 48) = c"
proof -
  have "48 + ((of_char c :: nat) - 48) = of_char c" using assms by (simp add: isdigit_def)
  then show ?thesis by (simp add: digit_char_def)
qed

lemma int_of_digits_snoc:
  "int_of_digits (s @ [c]) = 10 * int_of_digits s + (int (of_char c) - 48)"
  by (simp add: int_of_digits_def)

lemma int_of_digits_Nil: "int_of_digits [] = 0"
  by (simp add: int_of_digits_def)

lemma str_nat_small: "n < 10 \<Longrightarrow> str_nat n = [digit_char n]"
  by (subst str_nat.simps) simp

lemma str_nat_big: "10 \<le> n \<Longrightarrow> str_nat n = str_nat (n div 10) @ [digit_char (n mod 10)]"
  by (subst str_nat.simps) simp

lemma int_of_digits_str_nat: "int_of_digits (str_nat n) = int n"
proof (induction n rule: str_nat.induct)
  case (1 n)
  show ?case
  proof (cases "n < 10")
    case True
    then show ?thesis
      by (simp add: str_nat_small int_of_digits_def of_char_digit_char)
  next
    case False
    then have "int_of_digits (str_nat n) = 10 * int (n div 10) + int (n mod 10)"
      using 1 by (simp add: str_nat_big int_of_digits_snoc of_char_digit_char)
    then show ?thesis by (simp add: of_nat_div of_nat_mod)
  qed
qed

lemma str_nat_isdigit: "c \<in> set (str_nat n) \<Longrightarrow> isdigit c"
proof (induction n rule: str_nat.induct)
  case (1 n)
  show ?case
  proof (cases "n < 10")
    case True
    with 1(2) show ?thesis by (simp add: str_nat_small isdigit_digit_char)
  next
    case False
    with 1 show ?thesis by (auto simp: str_nat_big isdigit_digit_char)
  qed
qed

lemma str_nat_not_Nil: "str_nat n \<noteq> []"
  by (subst str_nat.simps) simp

lemma digit_value: "isdigit c \<Longrightarrow> 0 \<le> int (of_char c) - 48 \<and> int (of_char c) - 48 < 10"
  by (auto simp: isdigit_def)

lemma int_of_digits_nonneg: "\<forall>c \<in> set ds. isdigit c \<Longrightarrow> 0 \<le> int_of_digits ds"
proof (induction ds rule: rev_induct)
  case Nil
  show ?case by (simp add: int_of_digits_Nil)
next
  case (snoc c ds)
  then have "0 \<le> int_of_digits ds" "0 \<le> int (of_char c) - 48" using digit_value by auto
  then show ?case unfolding int_of_digits_snoc by linarith
qed

lemma isdigit_zero: "isdigit c \<Longrightarrow> c \<noteq> CHR ''0'' \<Longrightarrow> 0 < int (of_char c) - 48"
proof -
  assume a: "isdigit c" "c \<noteq> CHR ''0''"
  have "(of_char c :: nat) \<noteq> 48"
  proof
    assume "(of_char c :: nat) = 48"
    also have "48 = (of_char CHR ''0'' :: nat)" by simp
    finally have "c = CHR ''0''" by (simp only: of_char_eq_iff)
    with a(2) show False by simp
  qed
  with a(1) show ?thesis by (auto simp: isdigit_def)
qed

lemma int_of_digits_pos:
  assumes "ds \<noteq> []" "\<forall>c \<in> set ds. isdigit c" "hd ds \<noteq> CHR ''0''"
  shows "0 < int_of_digits ds"
  using assms
proof (induction ds rule: rev_induct)
  case Nil
  then show ?case by simp
next
  case (snoc c ds)
  have d: "0 \<le> int (of_char c) - 48" using snoc.prems digit_value by auto
  show ?case
  proof (cases "ds = []")
    case True
    with snoc.prems have "0 < int (of_char c) - 48" by (intro isdigit_zero) auto
    with True show ?thesis by (simp add: int_of_digits_def)
  next
    case False
    with snoc have "0 < int_of_digits ds" by auto
    with d show ?thesis unfolding int_of_digits_snoc by linarith
  qed
qed

lemma str_nat_int_of_digits:
  assumes "ds \<noteq> []" "\<forall>c \<in> set ds. isdigit c" "hd ds \<noteq> CHR ''0'' \<or> ds = ''0''"
  shows "str_nat (nat (int_of_digits ds)) = ds"
  using assms
proof (induction ds rule: rev_induct)
  case Nil
  then show ?case by simp
next
  case (snoc c ds)
  have dc: "isdigit c" using snoc.prems by simp
  have dv: "0 \<le> int (of_char c) - 48" "int (of_char c) - 48 < 10" using digit_value [OF dc] by auto
  have nd: "nat (int (of_char c) - 48) = of_char c - 48" by simp
  show ?case
  proof (cases "ds = []")
    case True
    have "str_nat (nat (int (of_char c) - 48)) = [digit_char (nat (int (of_char c) - 48))]"
      using dv by (intro str_nat_small) linarith
    also have "\<dots> = [c]" unfolding nd using digit_char_of_char [OF dc] by simp
    finally show ?thesis using True by (simp add: int_of_digits_def)
  next
    case False
    with snoc.prems have h: "hd ds \<noteq> CHR ''0''" by (cases ds) auto
    have ih: "str_nat (nat (int_of_digits ds)) = ds" using snoc.IH False snoc.prems h by auto
    have pos: "0 < int_of_digits ds" using False snoc.prems h by (intro int_of_digits_pos) auto
    define q where "q = nat (int_of_digits ds)"
    define d where "d = nat (int (of_char c) - 48)"
    have q: "int_of_digits ds = int q" "0 < q" using pos by (simp_all add: q_def)
    have d: "int (of_char c) - 48 = int d" "d < 10" using dv by (simp_all add: d_def)
    have n: "nat (int_of_digits (ds @ [c])) = 10 * q + d"
      unfolding int_of_digits_snoc q(1) d(1) by (simp add: nat_add_distrib nat_mult_distrib)
    have "str_nat (10 * q + d) = str_nat ((10 * q + d) div 10) @ [digit_char ((10 * q + d) mod 10)]"
      using q(2) by (intro str_nat_big) simp
    also have "(10 * q + d) div 10 = q" using d(2) by simp
    also have "(10 * q + d) mod 10 = d" using d(2) by simp
    finally have "str_nat (10 * q + d) = str_nat q @ [digit_char d]" .
    moreover have "digit_char d = c" unfolding d_def nd by (rule digit_char_of_char [OF dc])
    ultimately show ?thesis unfolding n using ih by (simp add: q_def)
  qed
qed

lemma length_str_nat: "0 < w \<Longrightarrow> n < 10 ^ w \<Longrightarrow> length (str_nat n) \<le> w"
proof (induction n arbitrary: w rule: str_nat.induct)
  case (1 n)
  show ?case
  proof (cases "n < 10")
    case True
    with 1(2) show ?thesis by (simp add: str_nat_small)
  next
    case False
    obtain v where w: "w = Suc v" using 1(2) by (cases w) auto
    have "0 < v" using False 1(3) w by (cases v) auto
    moreover have "n div 10 < 10 ^ v" using 1(3) w by (simp add: less_mult_imp_div_less)
    ultimately have "length (str_nat (n div 10)) \<le> v" using 1(1) False by simp
    with False w show ?thesis by (simp add: str_nat_big)
  qed
qed

lemma int_of_digits_zeros: "int_of_digits (replicate k CHR ''0'' @ s) = int_of_digits s"
proof -
  have "foldl (\<lambda>a c. 10 * a + (int (of_char c) - 48)) 0 (replicate k CHR ''0'') = 0"
    by (induction k) simp_all
  then show ?thesis by (simp add: int_of_digits_def)
qed

lemma isdigit_0: "isdigit CHR ''0''"
  by (simp add: isdigit_def)

lemma zero_pad_spec:
  assumes "0 \<le> i" "i < 10 ^ w" "0 < w"
  shows "length (zero_pad w i) = w \<and> (\<forall>c \<in> set (zero_pad w i). isdigit c) \<and>
         int_of_digits (zero_pad w i) = i"
proof -
  have s: "str_int i = str_nat (nat i)" using assms(1) by (simp add: str_int_def)
  have "nat i < 10 ^ w" using assms(1,2) by (simp add: nat_less_iff)
  then have l: "length (str_nat (nat i)) \<le> w" using assms(3) by (intro length_str_nat)
  have d: "\<forall>c \<in> set (str_nat (nat i)). isdigit c" using str_nat_isdigit by blast
  show ?thesis
    unfolding zero_pad_def Let_def s
    using l d assms(1) by (auto simp: int_of_digits_zeros int_of_digits_str_nat isdigit_0)
qed

lemma datetime_add_ok:
  assumes "0 < toordinal d + td" "toordinal d + td \<le> MAXORDINAL"
    and "valid_datetime d"
  shows "\<exists>ts. datetime_add d td = Inr ts \<and> valid_datetime ts \<and> toordinal ts = toordinal d + td \<and>
           hour ts = hour d \<and> minute ts = minute d \<and> second ts = second d \<and>
           microsecond ts = microsecond d"
proof -
  have "1 \<le> toordinal d + td" using assms(1) by simp
  from ord2ymd_correct [OF this] assms(2)
  obtain y m dd where o: "ord2ymd (toordinal d + td) = (y, m, dd)" "1 \<le> y" "y \<le> 9999"
    "1 \<le> m" "m \<le> 12" "1 \<le> dd" "dd \<le> days_in_month y m" "ymd2ord y m dd = toordinal d + td"
    by blast
  let ?ts = "d\<lparr>year := y, month := m, day := dd\<rparr>"
  have "datetime_add d td = Inr ?ts" using assms(1,2) o(1) by (simp add: datetime_add_def Let_def)
  moreover have "valid_datetime ?ts" using assms(3) o by (simp add: valid_datetime_def)
  moreover have "toordinal ?ts = toordinal d + td" using o(8) by (simp add: toordinal_def)
  ultimately show ?thesis by (intro exI [of _ ?ts]) simp
qed

lemma datetime_add_overflow:
  "\<not> (0 < toordinal d + td \<and> toordinal d + td \<le> MAXORDINAL) \<Longrightarrow> datetime_add d td = Inl OverflowError"
  by (auto simp: datetime_add_def Let_def)

section \<open>Placeholders and their replacement\<close>

lemma replace_ne_clean:
  assumes "old \<noteq> []" "hd old \<notin> set x"
  shows "replace_ne old new (x @ rest) = x @ replace_ne old new rest"
  using assms(2)
proof (induction x)
  case Nil
  show ?case by simp
next
  case (Cons c cs)
  have "\<not> prefix old (c # cs @ rest)"
  proof
    assume "prefix old (c # cs @ rest)"
    with assms(1) have "hd old = c" by (cases old) auto
    with Cons.prems show False by simp
  qed
  with Cons show ?case by simp
qed

lemma replace_ne_clean_all:
  assumes "old \<noteq> []" "hd old \<notin> set x"
  shows "replace_ne old new x = x"
  using replace_ne_clean [OF assms, of new "[]"] by simp

lemma replace_ne_hit:
  assumes "old \<noteq> []"
  shows "replace_ne old new (old @ rest) = new @ replace_ne old new rest"
proof -
  obtain c cs where o: "old = c # cs" using assms by (cases old) auto
  have "replace_ne old new (c # (cs @ rest)) = new @ replace_ne old new (drop (length old) (c # (cs @ rest)))"
    by (subst replace_ne.simps) (simp add: o)
  then show ?thesis by (simp add: o)
qed

lemma replace_ne_join:
  assumes "old \<noteq> []"
  shows "\<forall>x \<in> set pieces. hd old \<notin> set x \<Longrightarrow>
         replace_ne old new (join old pieces) = join new pieces"
proof (induction pieces rule: induct_list012)
  case 1
  show ?case by simp
next
  case (2 x)
  then show ?case using replace_ne_clean_all [OF assms, of x new] by simp
next
  case (3 x y zs)
  have "replace_ne old new (x @ old @ join old (y # zs)) =
        x @ new @ replace_ne old new (join old (y # zs))"
    using 3(3) assms by (simp add: replace_ne_clean replace_ne_hit)
  with 3 show ?case by simp
qed

lemma replace_join:
  assumes "old \<noteq> []" "\<forall>x \<in> set pieces. hd old \<notin> set x"
  shows "replace (join old pieces) old new = join new pieces"
  using replace_ne_join [OF assms] assms(1) by (simp add: replace_def)

lemma param_tail_Some:
  assumes "param_tail dtype tm r = Some (d', g2, g3, sign, v)"
  shows "d' = dtype \<and>
         ((g3 = None \<and> sign = None \<and> v = None \<and> (\<exists>post. r = ''}'' @ post)) \<or>
          (\<exists>c ds post. (c = CHR ''+'' \<or> c = CHR ''-'') \<and> g3 = Some (c # ds) \<and> sign = Some [c] \<and>
             v = Some ds \<and> ds \<noteq> [] \<and> (\<forall>x \<in> set ds. isdigit x) \<and> r = [c] @ ds @ ''}'' @ post))"
proof (cases r)
  case Nil
  with assms show ?thesis by (simp add: param_tail_def)
next
  case (Cons c r2)
  show ?thesis
  proof (cases "c = CHR ''+'' \<or> c = CHR ''-''")
    case True
    let ?ds = "takeWhile isdigit r2"
    from assms Cons True have h: "?ds \<noteq> []" "prefix ''}'' (dropWhile isdigit r2)"
      and g: "d' = dtype" "g3 = Some (c # ?ds)" "sign = Some [c]" "v = Some ?ds"
      by (auto simp: param_tail_def Let_def split: if_splits)
    from h(2) obtain post where "dropWhile isdigit r2 = ''}'' @ post" by (auto simp: prefix_def)
    then have "r2 = ?ds @ ''}'' @ post" using takeWhile_dropWhile_id [of isdigit r2] by simp
    then have "r = [c] @ ?ds @ ''}'' @ post" using Cons by simp
    moreover have "\<forall>x \<in> set ?ds. isdigit x" by (auto dest: set_takeWhileD)
    ultimately show ?thesis using g h(1) True by blast
  next
    case False
    with assms Cons show ?thesis by (auto simp: param_tail_def split: if_splits)
  qed
qed

lemma param_token_at_Some:
  assumes "param_token_at s = Some (dtype, g2, g3, sign, v)"
  shows "(dtype = ''DATEID'' \<or> dtype = ''DATETIMEID'') \<and>
         ((g3 = None \<and> sign = None \<and> v = None \<and> (\<exists>post. s = ''{'' @ dtype @ ''}'' @ post)) \<or>
          (\<exists>c ds post. (c = CHR ''+'' \<or> c = CHR ''-'') \<and> g3 = Some (c # ds) \<and> sign = Some [c] \<and>
             v = Some ds \<and> ds \<noteq> [] \<and> (\<forall>x \<in> set ds. isdigit x) \<and>
             s = ''{'' @ dtype @ [c] @ ds @ ''}'' @ post))"
proof (cases "prefix ''{DATETIMEID'' s")
  case True
  then obtain r where s: "s = ''{DATETIMEID'' @ r" by (auto simp: prefix_def)
  with assms have "param_tail ''DATETIMEID'' (Some ''TIME'') r = Some (dtype, g2, g3, sign, v)"
    by (simp add: param_token_at_def)
  from param_tail_Some [OF this] s show ?thesis by auto
next
  case False
  show ?thesis
  proof (cases "prefix ''{DATEID'' s")
    case True
    then obtain r where s: "s = ''{DATEID'' @ r" by (auto simp: prefix_def)
    with assms False have "param_tail ''DATEID'' None r = Some (dtype, g2, g3, sign, v)"
      by (simp add: param_token_at_def)
    from param_tail_Some [OF this] s show ?thesis by auto
  next
    case f: False
    with False assms show ?thesis by (simp add: param_token_at_def)
  qed
qed

lemma PARAM_PATTERN_match_Some:
  "PARAM_PATTERN_match s = Some g \<Longrightarrow> \<exists>pre rest. s = pre @ rest \<and> param_token_at rest = Some g"
proof (induction s)
  case Nil
  then show ?case by simp
next
  case (Cons c cs)
  show ?case
  proof (cases "PARAM_PATTERN_match cs")
    case None
    with Cons.prems have "param_token_at (c # cs) = Some g" by (simp split: if_splits)
    then show ?thesis by (intro exI [of _ "[]"] exI [of _ "c # cs"]) simp
  next
    case (Some g')
    with Cons.prems have "g' = g" by (simp split: if_splits)
    with Some Cons.IH obtain pre rest where "cs = pre @ rest" "param_token_at rest = Some g" by blast
    then show ?thesis by (intro exI [of _ "c # pre"] exI [of _ rest]) simp
  qed
qed

lemma DateType_getitem_name: "DateType_getitem dtype = Some t \<Longrightarrow> DateType_name t = dtype"
  by (auto simp: DateType_getitem_def DateType_name_def split: if_splits)

lemma reconstruct_match_token_brace:
  "\<exists>r. reconstruct_match_token param = CHR ''{'' # r"
  by (simp add: reconstruct_match_token_def Let_def)

lemma str_int_int_of_digits:
  assumes "ds \<noteq> []" "\<forall>c \<in> set ds. isdigit c" "ds = ''0'' \<or> hd ds \<noteq> CHR ''0''"
  shows "str_int (int_of_digits ds) = ds"
proof -
  have "0 \<le> int_of_digits ds" using assms(2) by (rule int_of_digits_nonneg)
  then have "str_int (int_of_digits ds) = str_nat (nat (int_of_digits ds))"
    by (simp add: str_int_def)
  also have "\<dots> = ds" using assms by (intro str_nat_int_of_digits) auto
  finally show ?thesis .
qed

lemma reconstruct_matched:
  assumes "param_token_at rest = Some (dtype, g2, g3, sign, v)"
    and "DateType_getitem dtype = Some t"
    and "\<forall>ds. v = Some ds \<longrightarrow> ds = ''0'' \<or> hd ds \<noteq> CHR ''0''"
  shows "\<exists>post. rest =
           reconstruct_match_token
             \<lparr>p_idx = i, p_dt = t, p_sign = from_str sign,
              p_value = (case v of Some ds \<Rightarrow> int_of_digits ds | None \<Rightarrow> 0)\<rparr> @ post"
proof -
  note n = DateType_getitem_name [OF assms(2)]
  from param_token_at_Some [OF assms(1)]
  consider (plain) post where "sign = None" "v = None" "rest = ''{'' @ dtype @ ''}'' @ post"
    | (signed) c ds post where "c = CHR ''+'' \<or> c = CHR ''-''" "sign = Some [c]" "v = Some ds"
        "ds \<noteq> []" "\<forall>x \<in> set ds. isdigit x" "rest = ''{'' @ dtype @ [c] @ ds @ ''}'' @ post"
    by blast
  then show ?thesis
  proof cases
    case plain
    then show ?thesis
      by (intro exI [of _ post]) (simp add: reconstruct_match_token_def from_str_def n)
  next
    case signed
    have "str_int (int_of_digits ds) = ds"
      using signed(3,4,5) assms(3) by (intro str_int_int_of_digits) auto
    with signed show ?thesis
      by (intro exI [of _ post]) (auto simp: reconstruct_match_token_def from_str_def n Let_def)
  qed
qed

lemma parse_params_from_Cons:
  assumes "parse_params_from i (val # rest) = Inr ps"
  shows "parse_params_from (Suc i) rest = Inr ps \<or>
         (\<exists>dtype g2 g3 sign v t ps'.
            PARAM_PATTERN_match val = Some (dtype, g2, g3, sign, v) \<and>
            DateType_getitem dtype = Some t \<and> parse_params_from (Suc i) rest = Inr ps' \<and>
            ps = \<lparr>p_idx = i, p_dt = t, p_sign = from_str sign,
                  p_value = (case v of Some ds \<Rightarrow> int_of_digits ds | None \<Rightarrow> 0)\<rparr> # ps')"
proof (cases "(is_in ''{DATEID'' val \<or> is_in ''{DATETIMEID'' val) \<and> is_in ''}'' val")
  case False
  with assms show ?thesis by auto
next
  case True
  show ?thesis
  proof (cases "PARAM_PATTERN_match val")
    case None
    with assms True show ?thesis by simp
  next
    case (Some g)
    obtain dtype g2 g3 sign v where g: "g = (dtype, g2, g3, sign, v)" by (cases g)
    show ?thesis
    proof (cases "DateType_getitem dtype")
      case None
      with assms True Some g show ?thesis by simp
    next
      case t: (Some t)
      show ?thesis
      proof (cases "parse_params_from (Suc i) rest")
        case (Inl e)
        with assms True Some g t show ?thesis by simp
      next
        case (Inr ps')
        with assms True Some g t
        have "ps = \<lparr>p_idx = i, p_dt = t, p_sign = from_str sign,
                  p_value = (case v of Some ds \<Rightarrow> int_of_digits ds | None \<Rightarrow> 0)\<rparr> # ps'"
          by simp
        with Some g t Inr show ?thesis by blast
      qed
    qed
  qed
qed

lemma parse_params_from_sound:
  "parse_params_from i segs = Inr ps \<Longrightarrow> param \<in> set ps \<Longrightarrow>
     i \<le> p_idx param \<and> p_idx param < i + length segs \<and>
     (\<exists>dtype g2 g3 sign v t.
        PARAM_PATTERN_match (segs ! (p_idx param - i)) = Some (dtype, g2, g3, sign, v) \<and>
        DateType_getitem dtype = Some t \<and>
        param = \<lparr>p_idx = p_idx param, p_dt = t, p_sign = from_str sign,
                 p_value = (case v of Some ds \<Rightarrow> int_of_digits ds | None \<Rightarrow> 0)\<rparr>)"
proof (induction segs arbitrary: i ps)
  case Nil
  then show ?case by simp
next
  case (Cons val rest)
  have step: ?case if r: "parse_params_from (Suc i) rest = Inr ps'" and m: "param \<in> set ps'" for ps'
  proof -
    from Cons.IH [OF r m] have b: "Suc i \<le> p_idx param" "p_idx param < Suc i + length rest"
      and e: "\<exists>dtype g2 g3 sign v t.
        PARAM_PATTERN_match (rest ! (p_idx param - Suc i)) = Some (dtype, g2, g3, sign, v) \<and>
        DateType_getitem dtype = Some t \<and>
        param = \<lparr>p_idx = p_idx param, p_dt = t, p_sign = from_str sign,
                 p_value = (case v of Some ds \<Rightarrow> int_of_digits ds | None \<Rightarrow> 0)\<rparr>"
      by blast+
    from b have "p_idx param - i = Suc (p_idx param - Suc i)" by simp
    then have "(val # rest) ! (p_idx param - i) = rest ! (p_idx param - Suc i)" by simp
    with b e show ?thesis by auto
  qed
  from parse_params_from_Cons [OF Cons.prems(1)] show ?case
  proof
    assume "parse_params_from (Suc i) rest = Inr ps"
    then show ?case using Cons.prems(2) by (rule step)
  next
    assume "\<exists>dtype g2 g3 sign v t ps'.
            PARAM_PATTERN_match val = Some (dtype, g2, g3, sign, v) \<and>
            DateType_getitem dtype = Some t \<and> parse_params_from (Suc i) rest = Inr ps' \<and>
            ps = \<lparr>p_idx = i, p_dt = t, p_sign = from_str sign,
                  p_value = (case v of Some ds \<Rightarrow> int_of_digits ds | None \<Rightarrow> 0)\<rparr> # ps'"
    then obtain dtype g2 g3 sign v t ps' where h:
      "PARAM_PATTERN_match val = Some (dtype, g2, g3, sign, v)" "DateType_getitem dtype = Some t"
      "parse_params_from (Suc i) rest = Inr ps'"
      "ps = \<lparr>p_idx = i, p_dt = t, p_sign = from_str sign,
                  p_value = (case v of Some ds \<Rightarrow> int_of_digits ds | None \<Rightarrow> 0)\<rparr> # ps'"
      by blast
    show ?case
    proof (cases "param \<in> set ps'")
      case True
      with h(3) show ?thesis by (rule step)
    next
      case False
      with Cons.prems(2) h(4) have "param = \<lparr>p_idx = i, p_dt = t, p_sign = from_str sign,
                  p_value = (case v of Some ds \<Rightarrow> int_of_digits ds | None \<Rightarrow> 0)\<rparr>" by simp
      with h(1,2) show ?thesis by auto
    qed
  qed
qed

lemma parse_params_from_distinct:
  "parse_params_from i segs = Inr ps \<Longrightarrow> distinct (map p_idx ps)"
proof (induction segs arbitrary: i ps)
  case Nil
  then show ?case by simp
next
  case (Cons val rest)
  from parse_params_from_Cons [OF Cons.prems] show ?case
  proof
    assume "parse_params_from (Suc i) rest = Inr ps"
    then show ?case by (rule Cons.IH)
  next
    assume "\<exists>dtype g2 g3 sign v t ps'.
            PARAM_PATTERN_match val = Some (dtype, g2, g3, sign, v) \<and>
            DateType_getitem dtype = Some t \<and> parse_params_from (Suc i) rest = Inr ps' \<and>
            ps = \<lparr>p_idx = i, p_dt = t, p_sign = from_str sign,
                  p_value = (case v of Some ds \<Rightarrow> int_of_digits ds | None \<Rightarrow> 0)\<rparr> # ps'"
    then obtain q ps' where h: "parse_params_from (Suc i) rest = Inr ps'" "ps = q # ps'" "p_idx q = i"
      by auto
    have "i \<notin> p_idx ` set ps'"
    proof
      assume "i \<in> p_idx ` set ps'"
      then obtain x where "x \<in> set ps'" "p_idx x = i" by auto
      with parse_params_from_sound [OF h(1), of x] show False by simp
    qed
    with Cons.IH [OF h(1)] h(2,3) show ?case by simp
  qed
qed

lemma map_result_Inr:
  "map_result f xs = Inr ys \<Longrightarrow> list_all2 (\<lambda>x y. f x = Inr y) xs ys"
proof (induction xs arbitrary: ys)
  case Nil
  then show ?case by simp
next
  case (Cons x xs)
  then show ?case by (auto split: sum.splits)
qed

lemma assign_resolved_spec:
  assumes "distinct (map v_idx els)" "\<forall>el \<in> set els. v_idx el < length lst"
  shows "\<exists>lst'. assign_resolved els lst = Inr lst' \<and> length lst' = length lst \<and>
           (\<forall>el \<in> set els. lst' ! v_idx el = replace (lst ! v_idx el) (v_token el) (v_value el)) \<and>
           (\<forall>j. j < length lst \<longrightarrow> j \<notin> v_idx ` set els \<longrightarrow> lst' ! j = lst ! j)"
  using assms
proof (induction els arbitrary: lst)
  case Nil
  then show ?case by simp
next
  case (Cons el els)
  let ?l1 = "lst[v_idx el := replace (lst ! v_idx el) (v_token el) (v_value el)]"
  have i: "v_idx el < length lst" using Cons.prems(2) by simp
  have n: "v_idx el \<notin> v_idx ` set els" using Cons.prems(1) by auto
  have "distinct (map v_idx els)" "\<forall>x \<in> set els. v_idx x < length ?l1"
    using Cons.prems by auto
  from Cons.IH [OF this] obtain lst' where l:
    "assign_resolved els ?l1 = Inr lst'" "length lst' = length ?l1"
    "\<forall>x \<in> set els. lst' ! v_idx x = replace (?l1 ! v_idx x) (v_token x) (v_value x)"
    "\<forall>j. j < length ?l1 \<longrightarrow> j \<notin> v_idx ` set els \<longrightarrow> lst' ! j = ?l1 ! j"
    by blast
  have a: "assign_resolved (el # els) lst = Inr lst'" using i l(1) by simp
  have b: "length lst' = length lst" using l(2) by simp
  have c: "lst' ! v_idx el = replace (lst ! v_idx el) (v_token el) (v_value el)"
    using l(4) i n by simp
  have d: "lst' ! v_idx x = replace (lst ! v_idx x) (v_token x) (v_value x)" if "x \<in> set els" for x
  proof -
    have "v_idx x \<in> v_idx ` set els" using that by (rule imageI)
    with n have "v_idx x \<noteq> v_idx el" by metis
    then have "?l1 ! v_idx x = lst ! v_idx x" by simp
    with l(3) that show ?thesis by simp
  qed
  have e: "lst' ! j = lst ! j" if "j < length lst" "j \<notin> v_idx ` set (el # els)" for j
  proof -
    have "j \<noteq> v_idx el" "j \<notin> v_idx ` set els" using that(2) by auto
    with l(4) that(1) show ?thesis by simp
  qed
  show ?case using a b c d e by (intro exI [of _ lst']) auto
qed

lemma zero_pad_chars: "c \<in> set (zero_pad w i) \<Longrightarrow> isdigit c \<or> c = CHR ''-''"
  by (auto simp: zero_pad_def Let_def str_int_def isdigit_def dest: str_nat_isdigit split: if_splits)

lemma str_int_chars: "c \<in> set (str_int i) \<Longrightarrow> isdigit c \<or> c = CHR ''-''"
  by (auto simp: str_int_def dest: str_nat_isdigit split: if_splits)

lemma strftime_no_brace:
  "CHR ''{'' \<notin> set (strftime_DATE_STR d)" "CHR ''{'' \<notin> set (strftime_DATETIME_STR d)"
proof -
  have z: "CHR ''{'' \<notin> set (zero_pad w i)" for w i
    using zero_pad_chars [of "CHR ''{''" w i] by (auto simp: isdigit_def)
  have y: "CHR ''{'' \<notin> set (str_int i)" for i
    using str_int_chars [of "CHR ''{''" i] by (auto simp: isdigit_def)
  show "CHR ''{'' \<notin> set (strftime_DATE_STR d)" by (simp add: strftime_DATE_STR_def z y)
  then show "CHR ''{'' \<notin> set (strftime_DATETIME_STR d)" by (simp add: strftime_DATETIME_STR_def z)
qed

lemma set_join: "set (join sep xs) \<subseteq> set sep \<union> (\<Union>x \<in> set xs. set x)"
  by (induction sep xs rule: join.induct) auto

lemma extract_value_Inr:
  assumes "extract_value param d = Inr el"
  shows "v_idx el = p_idx param" "v_token el = reconstruct_match_token param"
    "CHR ''{'' \<notin> set (v_value el)"
    "el = \<lparr>v_idx = p_idx param, v_token = reconstruct_match_token param, v_value = v_value el\<rparr>"
  using assms strftime_no_brace
  by (auto simp: extract_value_def split: sum.splits if_splits)


lemma resolve_dateid_Inr:
  assumes "resolve_dateid p d = Inr (s, p')"
  shows "\<exists>resolved lst. map_result (\<lambda>param. extract_value param d) (params p) = Inr resolved \<and>
           assign_resolved resolved (path_lst p) = Inr lst \<and>
           s = proto p @ ''://'' @ bucket p @ ''/'' @ join ''/'' lst \<and> p' = p\<lparr>path_lst := lst\<rparr>"
  using assms by (auto simp: resolve_dateid_def split: sum.splits)

lemma resolved_segment:
  assumes init: "S3DatePath_init uri = Inr p"
    and res: "resolve_dateid p asOf = Inr (s, p')"
    and mem: "param \<in> set (params p)"
  shows "p_idx param < length (path_lst p)"
    and "\<exists>value. extract_value param asOf =
             Inr \<lparr>v_idx = p_idx param, v_token = reconstruct_match_token param, v_value = value\<rparr> \<and>
           CHR ''{'' \<notin> set value \<and>
           path_lst p' ! p_idx param =
             replace (path_lst p ! p_idx param) (reconstruct_match_token param) value"
proof -
  note i = S3DatePath_init_Inr [OF init]
  have pp: "parse_params_from 0 (path_lst p) = Inr (params p)" using i(3) by (simp add: parse_params_def)
  show len: "p_idx param < length (path_lst p)"
    using parse_params_from_sound [OF pp mem] by simp
  from resolve_dateid_Inr [OF res] obtain resolved lst where r:
    "map_result (\<lambda>param. extract_value param asOf) (params p) = Inr resolved"
    "assign_resolved resolved (path_lst p) = Inr lst" "p' = p\<lparr>path_lst := lst\<rparr>"
    by blast
  note la = map_result_Inr [OF r(1)]
  have ln: "length resolved = length (params p)" using la by (simp add: list_all2_lengthD)
  have nth: "extract_value (params p ! k) asOf = Inr (resolved ! k)" if "k < length (params p)" for k
    using la that by (simp add: list_all2_conv_all_nth)
  have idx: "map v_idx resolved = map p_idx (params p)"
  proof (rule nth_equalityI)
    show "length (map v_idx resolved) = length (map p_idx (params p))" using ln by simp
  next
    fix j assume "j < length (map v_idx resolved)"
    then have j: "j < length (params p)" using ln by simp
    from extract_value_Inr(1) [OF nth [OF j]] j ln
    show "map v_idx resolved ! j = map p_idx (params p) ! j" by simp
  qed
  have dist: "distinct (map v_idx resolved)"
    unfolding idx using pp by (rule parse_params_from_distinct)
  have bound: "\<forall>el \<in> set resolved. v_idx el < length (path_lst p)"
  proof
    fix el assume "el \<in> set resolved"
    then have "v_idx el \<in> set (map v_idx resolved)" by simp
    then have "v_idx el \<in> set (map p_idx (params p))" unfolding idx .
    then obtain q where "q \<in> set (params p)" "p_idx q = v_idx el" by auto
    with parse_params_from_sound [OF pp, of q] show "v_idx el < length (path_lst p)" by simp
  qed
  from mem obtain k where k: "k < length (params p)" "params p ! k = param"
    by (auto simp: in_set_conv_nth)
  define el where "el = resolved ! k"
  have ev: "extract_value param asOf = Inr el" using nth [OF k(1)] k(2) by (simp add: el_def)
  have elm: "el \<in> set resolved" using k(1) ln by (simp add: el_def)
  from assign_resolved_spec [OF dist bound] r(2)
  have "lst ! v_idx el = replace (path_lst p ! v_idx el) (v_token el) (v_value el)"
    using elm by auto
  then have "path_lst p' ! p_idx param =
      replace (path_lst p ! p_idx param) (reconstruct_match_token param) (v_value el)"
    using extract_value_Inr(1,2) [OF ev] r(3) by simp
  moreover have "extract_value param asOf =
      Inr \<lparr>v_idx = p_idx param, v_token = reconstruct_match_token param, v_value = v_value el\<rparr>"
    using extract_value_Inr(4) [OF ev] ev by simp
  moreover have "CHR ''{'' \<notin> set (v_value el)" using extract_value_Inr(3) [OF ev] .
  ultimately show "\<exists>value. extract_value param asOf =
             Inr \<lparr>v_idx = p_idx param, v_token = reconstruct_match_token param, v_value = value\<rparr> \<and>
           CHR ''{'' \<notin> set value \<and>
           path_lst p' ! p_idx param =
             replace (path_lst p ! p_idx param) (reconstruct_match_token param) value"
    by blast
qed

lemma token_in_segment:
  assumes init: "S3DatePath_init uri = Inr p"
    and mem: "param \<in> set (params p)"
    and canon: "canonical_offset (path_lst p ! p_idx param)"
  shows "\<exists>pre post. path_lst p ! p_idx param = pre @ reconstruct_match_token param @ post"
proof -
  note i = S3DatePath_init_Inr [OF init]
  have pp: "parse_params_from 0 (path_lst p) = Inr (params p)" using i(3) by (simp add: parse_params_def)
  let ?seg = "path_lst p ! p_idx param"
  from parse_params_from_sound [OF pp mem]
  obtain dtype g2 g3 sign v t where m: "PARAM_PATTERN_match ?seg = Some (dtype, g2, g3, sign, v)"
    and t: "DateType_getitem dtype = Some t"
    and q: "param = \<lparr>p_idx = p_idx param, p_dt = t, p_sign = from_str sign,
                 p_value = (case v of Some ds \<Rightarrow> int_of_digits ds | None \<Rightarrow> 0)\<rparr>"
    by auto
  have c: "\<forall>ds. v = Some ds \<longrightarrow> ds = ''0'' \<or> hd ds \<noteq> CHR ''0''"
    using canon m by (auto simp: canonical_offset_def)
  from PARAM_PATTERN_match_Some [OF m] obtain pre rest where
    s: "?seg = pre @ rest" "param_token_at rest = Some (dtype, g2, g3, sign, v)" by blast
  from reconstruct_matched [OF s(2) t c, of "p_idx param"] q
  obtain post where "rest = reconstruct_match_token param @ post" by auto
  with s(1) show ?thesis by auto
qed

lemma placeholder_token_is_replaced:
  assumes "S3DatePath_init uri = Inr p"
    and "resolve_dateid p asOf = Inr (s, p')"
    and "param \<in> set (params p)"
    and "canonical_offset (path_lst p ! p_idx param)"
  shows "\<exists>value pre post.
           extract_value param asOf =
             Inr \<lparr>v_idx = p_idx param, v_token = reconstruct_match_token param, v_value = value\<rparr> \<and>
           path_lst p ! p_idx param = pre @ reconstruct_match_token param @ post \<and>
           path_lst p' ! p_idx param =
             replace (path_lst p ! p_idx param) (reconstruct_match_token param) value \<and>
           (\<forall>pieces.
              path_lst p ! p_idx param = join (reconstruct_match_token param) pieces \<and>
              (\<forall>x \<in> set pieces. CHR ''{'' \<notin> set x) \<longrightarrow>
              path_lst p' ! p_idx param = join value pieces \<and>
              CHR ''{'' \<notin> set (path_lst p' ! p_idx param))"
proof -
  let ?seg = "path_lst p ! p_idx param" and ?tok = "reconstruct_match_token param"
  from resolved_segment(2) [OF assms(1,2,3)] obtain "value" where v:
    "extract_value param asOf = Inr \<lparr>v_idx = p_idx param, v_token = ?tok, v_value = value\<rparr>"
    "CHR ''{'' \<notin> set value" "path_lst p' ! p_idx param = replace ?seg ?tok value"
    by blast
  from token_in_segment [OF assms(1,3,4)] obtain pre post where t: "?seg = pre @ ?tok @ post"
    by blast
  obtain r where b: "?tok = CHR ''{'' # r" using reconstruct_match_token_brace by blast
  have j: "path_lst p' ! p_idx param = join value pieces \<and>
           CHR ''{'' \<notin> set (path_lst p' ! p_idx param)"
    if h: "?seg = join ?tok pieces" "\<forall>x \<in> set pieces. CHR ''{'' \<notin> set x" for pieces
  proof -
    have "replace (join ?tok pieces) ?tok value = join value pieces"
      using h(2) b by (intro replace_join) auto
    then have e: "path_lst p' ! p_idx param = join value pieces" using v(3) h(1) by simp
    have "set (join value pieces) \<subseteq> set value \<union> (\<Union>x \<in> set pieces. set x)" by (rule set_join)
    with v(2) h(2) have "CHR ''{'' \<notin> set (join value pieces)" by auto
    with e show ?thesis by simp
  qed
  show ?thesis using v(1,3) t j by blast
qed

section \<open>The effective timestamp and its format\<close>

lemma str_nat_4:
  assumes "1000 \<le> n" "n \<le> 9999"
  shows "length (str_nat n) = 4"
proof -
  have 1: "str_nat n = str_nat (n div 10) @ [digit_char (n mod 10)]"
    using assms by (intro str_nat_big) simp
  have 2: "str_nat (n div 10) = str_nat (n div 10 div 10) @ [digit_char (n div 10 mod 10)]"
    using assms by (intro str_nat_big) simp
  have 3: "str_nat (n div 10 div 10) =
      str_nat (n div 10 div 10 div 10) @ [digit_char (n div 10 div 10 mod 10)]"
    using assms by (intro str_nat_big) simp
  have 4: "str_nat (n div 10 div 10 div 10) = [digit_char (n div 10 div 10 div 10)]"
    using assms by (intro str_nat_small) simp
  show ?thesis unfolding 1 2 3 4 by simp
qed

lemma digit_char_0: "0 < d \<Longrightarrow> d < 10 \<Longrightarrow> digit_char d \<noteq> CHR ''0''"
proof
  assume a: "0 < d" "d < 10" "digit_char d = CHR ''0''"
  then have "(of_char (digit_char d) :: nat) = of_char CHR ''0''" by simp
  then have "48 + d = 48" using a(2) by (simp add: of_char_digit_char)
  with a(1) show False by simp
qed

lemma hd_str_nat: "0 < n \<Longrightarrow> hd (str_nat n) \<noteq> CHR ''0''"
proof (induction n rule: str_nat.induct)
  case (1 n)
  show ?case
  proof (cases "n < 10")
    case True
    with 1(2) show ?thesis by (simp add: str_nat_small digit_char_0)
  next
    case False
    then have "0 < n div 10" by simp
    with 1(1) False have "hd (str_nat (n div 10)) \<noteq> CHR ''0''" by simp
    with False show ?thesis by (simp add: str_nat_big str_nat_not_Nil)
  qed
qed

lemma decimal_str_int:
  assumes "0 \<le> i"
  shows "decimal (str_int i) i"
proof -
  have s: "str_int i = str_nat (nat i)" using assms by (simp add: str_int_def)
  have "list_all isdigit (str_nat (nat i))" using str_nat_isdigit by (auto simp: list_all_iff)
  then show ?thesis
    unfolding decimal_def s using assms by (simp add: str_nat_not_Nil int_of_digits_str_nat)
qed

lemma decimal_zero_pad:
  assumes "0 \<le> i" "i < 10 ^ w" "0 < w"
  shows "decimal (zero_pad w i) i \<and> length (zero_pad w i) = w"
proof -
  from zero_pad_spec [OF assms]
  have z: "length (zero_pad w i) = w" "\<forall>c \<in> set (zero_pad w i). isdigit c"
    "int_of_digits (zero_pad w i) = i" by auto
  from z(1) assms(3) have "zero_pad w i \<noteq> []" by auto
  with z show ?thesis by (simp add: decimal_def list_all_iff)
qed

lemma days_in_month_le:
  assumes "1 \<le> m" "m \<le> 12"
  shows "days_in_month y m \<le> 31"
proof -
  from assms consider "m = 1" | "m = 2" | "m = 3" | "m = 4" | "m = 5" | "m = 6"
    | "m = 7" | "m = 8" | "m = 9" | "m = 10" | "m = 11" | "m = 12" by atomize_elim presburger
  then show ?thesis by cases (simp_all add: days_in_month_def DAYS_IN_MONTH_def)
qed

lemma strftime_format:
  assumes "valid_datetime ts"
  shows "\<exists>Y M D h m s.
           decimal Y (year ts) \<and> hd Y \<noteq> CHR ''0'' \<and> (1000 \<le> year ts \<longrightarrow> length Y = 4) \<and>
           decimal M (month ts) \<and> length M = 2 \<and> decimal D (day ts) \<and> length D = 2 \<and>
           decimal h (hour ts) \<and> length h = 2 \<and> decimal m (minute ts) \<and> length m = 2 \<and>
           decimal s (second ts) \<and> length s = 2 \<and>
           strftime_DATE_STR ts = Y @ ''-'' @ M @ ''-'' @ D \<and>
           strftime_DATETIME_STR ts = Y @ ''-'' @ M @ ''-'' @ D @ ''_'' @ h @ ''-'' @ m @ ''-'' @ s"
proof -
  note v = assms [unfolded valid_datetime_def]
  have y0: "0 \<le> year ts" "0 < nat (year ts)" using v by simp_all
  have sy: "str_int (year ts) = str_nat (nat (year ts))" using y0 by (simp add: str_int_def)
  have Y1: "decimal (str_int (year ts)) (year ts)" using y0(1) by (rule decimal_str_int)
  have Y2: "hd (str_int (year ts)) \<noteq> CHR ''0''" unfolding sy using y0(2) by (rule hd_str_nat)
  have Y3: "1000 \<le> year ts \<longrightarrow> length (str_int (year ts)) = 4"
    unfolding sy using v by (auto intro!: str_nat_4)
  have dl: "day ts \<le> 31" using v days_in_month_le [of "month ts" "year ts"] by simp
  have M: "decimal (zero_pad 2 (month ts)) (month ts) \<and> length (zero_pad 2 (month ts)) = 2"
    using v by (intro decimal_zero_pad) simp_all
  have D: "decimal (zero_pad 2 (day ts)) (day ts) \<and> length (zero_pad 2 (day ts)) = 2"
    using v dl by (intro decimal_zero_pad) simp_all
  have h: "decimal (zero_pad 2 (hour ts)) (hour ts) \<and> length (zero_pad 2 (hour ts)) = 2"
    using v by (intro decimal_zero_pad) simp_all
  have m: "decimal (zero_pad 2 (minute ts)) (minute ts) \<and> length (zero_pad 2 (minute ts)) = 2"
    using v by (intro decimal_zero_pad) simp_all
  have s: "decimal (zero_pad 2 (second ts)) (second ts) \<and> length (zero_pad 2 (second ts)) = 2"
    using v by (intro decimal_zero_pad) simp_all
  show ?thesis
    using Y1 Y2 Y3 M D h m s
    by (intro exI [of _ "str_int (year ts)"] exI [of _ "zero_pad 2 (month ts)"]
        exI [of _ "zero_pad 2 (day ts)"] exI [of _ "zero_pad 2 (hour ts)"]
        exI [of _ "zero_pad 2 (minute ts)"] exI [of _ "zero_pad 2 (second ts)"])
      (simp add: strftime_DATE_STR_def strftime_DATETIME_STR_def)
qed

lemma effective_ts:
  assumes "valid_datetime asOf"
    and "\<not> (p_sign param \<noteq> NONE \<and>
             (999999999 < \<bar>p_value param\<bar> \<or> toordinal asOf + signed_offset param < 1 \<or>
              MAXORDINAL < toordinal asOf + signed_offset param))"
  shows "\<exists>ts. valid_datetime ts \<and> (p_sign param = NONE \<longrightarrow> ts = asOf) \<and>
           toordinal ts = toordinal asOf + signed_offset param \<and>
           hour ts = hour asOf \<and> minute ts = minute asOf \<and> second ts = second asOf \<and>
           microsecond ts = microsecond asOf \<and>
           extract_value param asOf =
             Inr \<lparr>v_idx = p_idx param, v_token = reconstruct_match_token param,
                  v_value = (if p_dt param = DATEID then strftime_DATE_STR ts
                             else strftime_DATETIME_STR ts)\<rparr>"
proof (cases "p_sign param = NONE")
  case True
  then show ?thesis using assms(1)
    by (intro exI [of _ asOf]) (simp add: extract_value_def signed_offset_def)
next
  case False
  with assms(2) have b: "\<bar>p_value param\<bar> \<le> 999999999" "0 < toordinal asOf + signed_offset param"
    "toordinal asOf + signed_offset param \<le> MAXORDINAL" by auto
  have td: "timedelta (p_value param) = Inr (p_value param)" using b(1) by (simp add: timedelta_def)
  have co: "compute_offset asOf (p_sign param) (p_value param) = datetime_add asOf (signed_offset param)"
    using False by (cases "p_sign param") (simp_all add: compute_offset_def td signed_offset_def datetime_sub_def)
  from datetime_add_ok [OF b(2,3) assms(1)]
  obtain ts where ts: "datetime_add asOf (signed_offset param) = Inr ts" "valid_datetime ts"
    "toordinal ts = toordinal asOf + signed_offset param" "hour ts = hour asOf"
    "minute ts = minute asOf" "second ts = second asOf" "microsecond ts = microsecond asOf"
    by blast
  then show ?thesis using False co
    by (intro exI [of _ ts]) (simp add: extract_value_def)
qed

lemma extract_value_overflow:
  assumes "p_sign param \<noteq> NONE"
    and "999999999 < \<bar>p_value param\<bar> \<or> toordinal asOf + signed_offset param < 1 \<or>
         MAXORDINAL < toordinal asOf + signed_offset param"
  shows "extract_value param asOf = Inl OverflowError"
proof (cases "999999999 < \<bar>p_value param\<bar>")
  case True
  then show ?thesis using assms(1)
    by (simp add: extract_value_def compute_offset_def timedelta_def)
next
  case False
  then have td: "timedelta (p_value param) = Inr (p_value param)" by (simp add: timedelta_def)
  have co: "compute_offset asOf (p_sign param) (p_value param) = datetime_add asOf (signed_offset param)"
    using assms(1) by (cases "p_sign param") (simp_all add: compute_offset_def td signed_offset_def datetime_sub_def)
  have "\<not> (0 < toordinal asOf + signed_offset param \<and> toordinal asOf + signed_offset param \<le> MAXORDINAL)"
    using assms(2) False by auto
  then have "datetime_add asOf (signed_offset param) = Inl OverflowError"
    by (rule datetime_add_overflow)
  with co assms(1) show ?thesis by (simp add: extract_value_def)
qed

section \<open>The normalization against its specification\<close>

lemma collapse_after_Nil: "collapse_after pv [] = []"
  by (simp add: collapse_after_def)

lemma collapse_after_Cons:
  "collapse_after pv (c # cs) =
     (if pv = Some slash \<and> c = slash then [] else [c]) @ collapse_after (Some c) cs"
  by (simp add: collapse_after_def)

lemma collapse_after_skip:
  "collapse_after (Some slash) s = collapse_after (Some slash) (dropWhile (\<lambda>c. c = slash) s)"
  by (induction s) (simp_all add: collapse_after_Cons)

lemma collapse_after_prev:
  "s = [] \<or> hd s \<noteq> slash \<Longrightarrow> collapse_after pv s = collapse_after None s"
  by (cases s) (simp_all add: collapse_after_Nil collapse_after_Cons)

lemma dropWhile_slash_hd:
  "dropWhile (\<lambda>c. c = slash) s = [] \<or> hd (dropWhile (\<lambda>c. c = slash) s) \<noteq> slash"
  using hd_dropWhile [of "\<lambda>c. c = slash" s] by blast

lemma collapse_after_normalize:
  "pv \<noteq> Some slash \<Longrightarrow> collapse_after pv s = normalize_path s"
proof (induction s arbitrary: pv rule: normalize_path.induct)
  case 1
  show ?case by (simp add: collapse_after_Nil)
next
  case (2 c)
  then show ?case by (simp add: collapse_after_Cons collapse_after_Nil)
next
  case (3 a b cs)
  show ?case
  proof (cases "a = slash \<and> b = slash")
    case True
    let ?d = "dropWhile (\<lambda>c. c = slash) cs"
    have "collapse_after pv (a # b # cs) = slash # collapse_after (Some slash) cs"
      using True 3(3) by (simp add: collapse_after_Cons)
    also have "collapse_after (Some slash) cs = collapse_after (Some slash) ?d"
      by (rule collapse_after_skip)
    also have "\<dots> = collapse_after None ?d"
      by (rule collapse_after_prev) (rule dropWhile_slash_hd)
    also have "\<dots> = normalize_path ?d" using 3(1) [of None] True by simp
    finally show ?thesis using True by simp
  next
    case False
    have 1: "collapse_after pv (a # b # cs) = a # collapse_after (Some a) (b # cs)"
      using 3(3) by (simp add: collapse_after_Cons)
    have "collapse_after (Some a) (b # cs) = normalize_path (b # cs)"
    proof (cases "a = slash")
      case True
      with False have "b \<noteq> slash" by simp
      then have "collapse_after (Some a) (b # cs) = collapse_after None (b # cs)"
        by (intro collapse_after_prev) simp
      also have "\<dots> = normalize_path (b # cs)" using 3(2) [of None] False by simp
      finally show ?thesis .
    next
      case f: False
      then have "Some a \<noteq> Some slash" by simp
      with 3(2) False show ?thesis by simp
    qed
    moreover have "normalize_path (a # b # cs) = a # normalize_path (b # cs)"
      using False by (cases "a = slash") simp_all
    ultimately show ?thesis using 1 by simp
  qed
qed

lemma normalize_path_spec: "normalize_path raw = collapse_runs_spec raw"
  using collapse_after_normalize [of None raw] by (simp add: collapse_runs_spec_def)

lemma normalize_path_clean: "slash \<notin> set a \<Longrightarrow> normalize_path a = a"
  by (induction a rule: normalize_path.induct) auto

lemma normalize_path_run:
  "slash \<notin> set a \<Longrightarrow>
     normalize_path (a @ slash # slash # r) = a @ slash # normalize_path (dropWhile (\<lambda>c. c = slash) r)"
proof (induction a)
  case Nil
  show ?case by simp
next
  case (Cons x xs)
  then have x: "x \<noteq> slash" and ih: "normalize_path (xs @ slash # slash # r) =
      xs @ slash # normalize_path (dropWhile (\<lambda>c. c = slash) r)" by auto
  obtain y ys where e: "xs @ slash # slash # r = y # ys" by (cases "xs @ slash # slash # r") auto
  have "normalize_path (x # y # ys) = x # normalize_path (y # ys)" using x by simp
  then show ?case using ih e by simp
qed

lemma normalize_path_schema:
  assumes "slash \<notin> set a" "slash \<notin> set b" "slash \<notin> set c" "b \<noteq> []"
  shows "normalize_path (a @ ''//'' @ b @ ''///'' @ c) = a @ ''/'' @ b @ ''/'' @ c"
proof -
  have db: "dropWhile (\<lambda>x. x = slash) (b @ slash # slash # slash # c) = b @ slash # slash # slash # c"
    using assms(2,4) by (cases b) auto
  have dc: "dropWhile (\<lambda>x. x = slash) (slash # c) = c"
    using assms(3) by (cases c) auto
  have "normalize_path (a @ slash # slash # (b @ slash # slash # slash # c)) =
        a @ slash # normalize_path (b @ slash # slash # slash # c)"
    using normalize_path_run [OF assms(1)] db by simp
  also have "normalize_path (b @ slash # slash # (slash # c)) = b @ slash # normalize_path c"
    using normalize_path_run [OF assms(2), of "slash # c"] dc by simp
  also have "normalize_path c = c" using assms(3) by (rule normalize_path_clean)
  finally show ?thesis by (simp add: slash_def)
qed

lemma init_decomposed:
  assumes "scheme = ''s3'' \<or> scheme = ''s3n''" "b \<noteq> []" "slash \<notin> set b"
    "rest = [] \<or> hd rest = slash"
  shows "S3Path_init (scheme @ ''://'' @ b @ rest) =
           Inr \<lparr>proto = ''s3'', bucket = b,
                path = normalize_path (takeWhile (\<lambda>c. c \<noteq> newline) (tl rest))\<rparr>"
proof -
  have t: "takeWhile (\<lambda>c. c \<noteq> slash) (b @ rest) = b" using assms(2,3,4) by (rule takeWhile_bucket)
  have d: "dropWhile (\<lambda>c. c \<noteq> slash) (b @ rest) = rest" using assms(3,4) by (rule dropWhile_bucket)
  have c: "(case rest of [] \<Rightarrow> [] | _ # r \<Rightarrow> r) = tl rest" by (cases rest) simp_all
  have m: "S3PATH_PATTERN_match (s @ (b @ rest)) =
          Some (s, b, takeWhile (\<lambda>c. c \<noteq> newline) (tl rest))"
    if "s = ''s3://'' \<or> s = ''s3n://''" for s
    unfolding match_Some_iff
    by (rule exI [of _ "b @ rest"]) (simp add: that t d c assms(2))
  from assms(1) show ?thesis
  proof
    assume "scheme = ''s3''"
    then have "scheme @ ''://'' @ b @ rest = ''s3://'' @ (b @ rest)" by simp
    with m [of "''s3://''"] show ?thesis by (simp add: S3Path_init_def)
  next
    assume "scheme = ''s3n''"
    then have "scheme @ ''://'' @ b @ rest = ''s3n://'' @ (b @ rest)" by simp
    with m [of "''s3n://''"] show ?thesis by (simp add: S3Path_init_def)
  qed
qed

lemma parse_decomposed:
  assumes "scheme = ''s3'' \<or> scheme = ''s3n''" and "bkt \<noteq> []" and "slash \<notin> set bkt"
    and "rest = [] \<or> hd rest = slash"
  shows "is_valid (scheme @ ''://'' @ bkt @ rest) \<and>
         (\<exists>p. S3Path_init (scheme @ ''://'' @ bkt @ rest) = Inr p \<and> bucket p = bkt \<and>
            path p = collapse_runs_spec (takeWhile (\<lambda>c. c \<noteq> newline) (tl rest)) \<and>
            (\<forall>i. Suc i < length (path p) \<longrightarrow> \<not> (path p ! i = slash \<and> path p ! Suc i = slash)) \<and>
            (\<forall>a b c. rest = ''/'' @ a @ ''//'' @ b @ ''///'' @ c \<and> b \<noteq> [] \<and>
               slash \<notin> set (a @ b @ c) \<and> newline \<notin> set (a @ b @ c) \<longrightarrow>
               path p = a @ ''/'' @ b @ ''/'' @ c) \<and>
            (\<exists>q. S3Path_init (S3Path_str p) = Inr q \<and> S3Path_eq q p \<and> q = p))"
proof -
  let ?uri = "scheme @ ''://'' @ bkt @ rest"
  let ?raw = "takeWhile (\<lambda>c. c \<noteq> newline) (tl rest)"
  let ?p = "\<lparr>proto = ''s3'', bucket = bkt, path = normalize_path ?raw\<rparr>"
  have i: "S3Path_init ?uri = Inr ?p" using assms by (rule init_decomposed)
  then have v: "is_valid ?uri" using init_ok_iff by blast
  have s: "path ?p = collapse_runs_spec ?raw" by (simp add: normalize_path_spec)
  have "\<not> double_slash (path ?p)" by (simp add: normalize_path_no_double_slash)
  then have n: "\<forall>i. Suc i < length (path ?p) \<longrightarrow> \<not> (path ?p ! i = slash \<and> path ?p ! Suc i = slash)"
    unfolding double_slash_nth by blast
  have k: "path ?p = a @ ''/'' @ b @ ''/'' @ c"
    if h: "rest = ''/'' @ a @ ''//'' @ b @ ''///'' @ c" "b \<noteq> []" "slash \<notin> set (a @ b @ c)"
      "newline \<notin> set (a @ b @ c)" for a b c
  proof -
    have "tl rest = a @ ''//'' @ b @ ''///'' @ c" using h(1) by simp
    moreover have "newline \<notin> set (a @ ''//'' @ b @ ''///'' @ c)"
      using h(4) by (simp add: newline_def)
    ultimately have e: "?raw = a @ ''//'' @ b @ ''///'' @ c" by (auto simp: takeWhile_eq_all_conv)
    have "normalize_path (a @ ''//'' @ b @ ''///'' @ c) = a @ ''/'' @ b @ ''/'' @ c"
      using h(2,3) by (intro normalize_path_schema) auto
    then show ?thesis unfolding e by simp
  qed
  have r: "S3Path_init (S3Path_str ?p) = Inr ?p \<and> S3Path_eq ?p ?p"
    using init_str [OF i] by (simp add: S3Path_eq_def)
  have b: "bucket ?p = bkt" by simp
  have "\<exists>p. S3Path_init ?uri = Inr p \<and> bucket p = bkt \<and> path p = collapse_runs_spec ?raw \<and>
            (\<forall>i. Suc i < length (path p) \<longrightarrow> \<not> (path p ! i = slash \<and> path p ! Suc i = slash)) \<and>
            (\<forall>a b c. rest = ''/'' @ a @ ''//'' @ b @ ''///'' @ c \<and> b \<noteq> [] \<and>
               slash \<notin> set (a @ b @ c) \<and> newline \<notin> set (a @ b @ c) \<longrightarrow>
               path p = a @ ''/'' @ b @ ''/'' @ c) \<and>
            (\<exists>q. S3Path_init (S3Path_str p) = Inr q \<and> S3Path_eq q p \<and> q = p)"
    using i b s n k r by (intro exI [of _ ?p]) blast
  with v show ?thesis by blast
qed

section \<open>Claims about the URI parser\<close>

text \<open>
  C7. An input that does not have the form \<open>scheme://bucket[/path]\<close>, with scheme
  \<open>s3\<close> or \<open>s3n\<close> and a non-empty bucket without \<open>/\<close>, is rejected by the constructor
  with the error that carries the input, and \<open>is_valid\<close> is false for exactly these
  inputs; every other input is accepted by both.
\<close>

theorem malformed_uri_is_rejected:
  "(is_valid uri \<longleftrightarrow>
      (\<exists>scheme b rest. (scheme = ''s3'' \<or> scheme = ''s3n'') \<and> b \<noteq> [] \<and> slash \<notin> set b \<and>
         (rest = [] \<or> hd rest = slash) \<and> uri = scheme @ ''://'' @ b @ rest)) \<and>
   (\<not> is_valid uri \<longrightarrow> S3Path_init uri = Inl (RuntimeError (''Invliad S3 URI: %'' @ uri))) \<and>
   (is_valid uri \<longrightarrow> (\<exists>p. S3Path_init uri = Inr p))"
  using is_valid_grammar [of uri] init_error_iff [of uri] init_ok_iff [of uri]
  by (cases "S3Path_init uri") auto

theorem malformed_uri_is_rejected_witness:
  "\<not> is_valid ''s4://bucket/path'' \<and>
   S3Path_init ''s4://bucket/path'' = Inl (RuntimeError ''Invliad S3 URI: %s4://bucket/path'') \<and>
   is_valid ''s3n://bucket/path'' \<and> (\<exists>p. S3Path_init ''s3n://bucket/path'' = Inr p)"
proof -
  have 1: "\<not> is_valid ''s4://bucket/path''"
    by (simp add: is_valid_def S3PATH_PATTERN_match_def scheme_group_def)
  have 2: "is_valid ''s3n://bucket/path''"
    by (simp add: is_valid_def S3PATH_PATTERN_match_def scheme_group_def slash_def)
  show ?thesis
    using 1 2 malformed_uri_is_rejected [of "''s4://bucket/path''"]
      malformed_uri_is_rejected [of "''s3n://bucket/path''"]
    by simp
qed

text \<open>
  C8. A valid URI is \<open>scheme://bucket\<close> followed by nothing or by \<open>/\<close> and the raw
  path, which ends at the first newline. For every valid URI, written in this form, the
  constructor succeeds and keeps the bucket; the path it stores is the raw path with
  every run of separators collapsed to its first separator, so it has no two
  neighbouring separators, and \<open>a//b///c\<close> gives \<open>a/b/c\<close> whatever \<open>a\<close>, \<open>b\<close> and \<open>c\<close>
  are; parsing the string form of the result again gives the same object.
\<close>

theorem parse_normalizes_and_reparses:
  assumes "is_valid uri"
  shows "(\<exists>scheme bkt rest. (scheme = ''s3'' \<or> scheme = ''s3n'') \<and> bkt \<noteq> [] \<and> slash \<notin> set bkt \<and>
            (rest = [] \<or> hd rest = slash) \<and> uri = scheme @ ''://'' @ bkt @ rest) \<and>
         (\<forall>scheme bkt rest.
            (scheme = ''s3'' \<or> scheme = ''s3n'') \<and> bkt \<noteq> [] \<and> slash \<notin> set bkt \<and>
            (rest = [] \<or> hd rest = slash) \<and> uri = scheme @ ''://'' @ bkt @ rest \<longrightarrow>
            (\<exists>p. S3Path_init uri = Inr p \<and> bucket p = bkt \<and>
               path p = collapse_runs_spec (takeWhile (\<lambda>c. c \<noteq> newline) (tl rest)) \<and>
               (\<forall>i. Suc i < length (path p) \<longrightarrow>
                  \<not> (path p ! i = slash \<and> path p ! Suc i = slash)) \<and>
               (\<forall>a b c. rest = ''/'' @ a @ ''//'' @ b @ ''///'' @ c \<and> b \<noteq> [] \<and>
                  slash \<notin> set (a @ b @ c) \<and> newline \<notin> set (a @ b @ c) \<longrightarrow>
                  path p = a @ ''/'' @ b @ ''/'' @ c) \<and>
               (\<exists>q. S3Path_init (S3Path_str p) = Inr q \<and> S3Path_eq q p \<and> q = p)))"
proof (intro conjI allI impI)
  show "\<exists>scheme bkt rest. (scheme = ''s3'' \<or> scheme = ''s3n'') \<and> bkt \<noteq> [] \<and> slash \<notin> set bkt \<and>
            (rest = [] \<or> hd rest = slash) \<and> uri = scheme @ ''://'' @ bkt @ rest"
    using assms unfolding is_valid_grammar .
next
  fix scheme bkt rest
  assume h: "(scheme = ''s3'' \<or> scheme = ''s3n'') \<and> bkt \<noteq> [] \<and> slash \<notin> set bkt \<and>
            (rest = [] \<or> hd rest = slash) \<and> uri = scheme @ ''://'' @ bkt @ rest"
  then have 1: "scheme = ''s3'' \<or> scheme = ''s3n''" and 2: "bkt \<noteq> []" and 3: "slash \<notin> set bkt"
    and 4: "rest = [] \<or> hd rest = slash" and 5: "uri = scheme @ ''://'' @ bkt @ rest"
    by blast+
  from parse_decomposed [OF 1 2 3 4]
  show "\<exists>p. S3Path_init uri = Inr p \<and> bucket p = bkt \<and>
               path p = collapse_runs_spec (takeWhile (\<lambda>c. c \<noteq> newline) (tl rest)) \<and>
               (\<forall>i. Suc i < length (path p) \<longrightarrow>
                  \<not> (path p ! i = slash \<and> path p ! Suc i = slash)) \<and>
               (\<forall>a b c. rest = ''/'' @ a @ ''//'' @ b @ ''///'' @ c \<and> b \<noteq> [] \<and>
                  slash \<notin> set (a @ b @ c) \<and> newline \<notin> set (a @ b @ c) \<longrightarrow>
                  path p = a @ ''/'' @ b @ ''/'' @ c) \<and>
               (\<exists>q. S3Path_init (S3Path_str p) = Inr q \<and> S3Path_eq q p \<and> q = p)"
    unfolding 5 by (rule conjunct2)
qed

theorem parse_normalizes_and_reparses_witness:
  "is_valid ''s3://bucket/a//b///c'' \<and>
   (\<exists>p. S3Path_init ''s3://bucket/a//b///c'' = Inr p \<and> bucket p = ''bucket'' \<and>
      path p = ''a/b/c'' \<and> collapse_runs_spec ''a//b///c'' = ''a/b/c'' \<and>
      (\<exists>q. S3Path_init (S3Path_str p) = Inr q \<and> S3Path_eq q p)) \<and>
   S3Path_init ''s3n://test-bucket//path//////p2'' =
     Inr \<lparr>proto = ''s3'', bucket = ''test-bucket'', path = ''/path/p2''\<rparr>"
proof -
  have v: "is_valid ''s3://bucket/a//b///c''"
    by (simp add: is_valid_def S3PATH_PATTERN_match_def scheme_group_def slash_def)
  have h: "(''s3'' = ''s3'' \<or> ''s3'' = ''s3n'') \<and> ''bucket'' \<noteq> [] \<and> slash \<notin> set ''bucket'' \<and>
           (''/a//b///c'' = [] \<or> hd ''/a//b///c'' = slash) \<and>
           ''s3://bucket/a//b///c'' = ''s3'' @ ''://'' @ ''bucket'' @ ''/a//b///c''"
    by (simp add: slash_def)
  have 5: "takeWhile (\<lambda>c. c \<noteq> newline) (tl ''/a//b///c'') = ''a//b///c''"
    by (simp add: newline_def)
  have 6: "collapse_runs_spec ''a//b///c'' = ''a/b/c''"
    by (simp add: collapse_runs_spec_def collapse_after_def slash_def)
  have 7: "S3Path_init ''s3n://test-bucket//path//////p2'' =
     Inr \<lparr>proto = ''s3'', bucket = ''test-bucket'', path = ''/path/p2''\<rparr>"
    by (simp add: S3Path_init_def S3PATH_PATTERN_match_def scheme_group_def slash_def newline_def)
  from parse_normalizes_and_reparses [OF v]
  have "\<forall>scheme bkt rest.
            (scheme = ''s3'' \<or> scheme = ''s3n'') \<and> bkt \<noteq> [] \<and> slash \<notin> set bkt \<and>
            (rest = [] \<or> hd rest = slash) \<and> ''s3://bucket/a//b///c'' = scheme @ ''://'' @ bkt @ rest \<longrightarrow>
            (\<exists>p. S3Path_init ''s3://bucket/a//b///c'' = Inr p \<and> bucket p = bkt \<and>
               path p = collapse_runs_spec (takeWhile (\<lambda>c. c \<noteq> newline) (tl rest)) \<and>
               (\<forall>i. Suc i < length (path p) \<longrightarrow>
                  \<not> (path p ! i = slash \<and> path p ! Suc i = slash)) \<and>
               (\<forall>a b c. rest = ''/'' @ a @ ''//'' @ b @ ''///'' @ c \<and> b \<noteq> [] \<and>
                  slash \<notin> set (a @ b @ c) \<and> newline \<notin> set (a @ b @ c) \<longrightarrow>
                  path p = a @ ''/'' @ b @ ''/'' @ c) \<and>
               (\<exists>q. S3Path_init (S3Path_str p) = Inr q \<and> S3Path_eq q p \<and> q = p))"
    by (rule conjunct2)
  from this [rule_format, of "''s3''" "''bucket''" "''/a//b///c''", OF h]
  obtain p where "S3Path_init ''s3://bucket/a//b///c'' = Inr p" "bucket p = ''bucket''"
    "path p = collapse_runs_spec (takeWhile (\<lambda>c. c \<noteq> newline) (tl ''/a//b///c''))"
    "\<exists>q. S3Path_init (S3Path_str p) = Inr q \<and> S3Path_eq q p \<and> q = p"
    by blast
  then show ?thesis unfolding 5 6 using v 6 7 by auto
qed

section \<open>Claims about the client\<close>

text \<open>
  C10. When source and destination parse to equal paths (same bucket and same
  normalized path, whatever the schemes), \<open>S3BotoClient.cp\<close> returns without a single
  call to the storage client: nothing is listed and nothing is copied.
\<close>

theorem client_cp_same_path_is_noop:
  assumes "S3Path_init s3_src_uri = Inr src" and "S3Path_init s3_dst_uri = Inr dst"
    and "S3Path_eq src dst"
  shows "S3BotoClient_cp client s3_src_uri s3_dst_uri = Inr []"
proof -
  have "is_valid s3_src_uri" "is_valid s3_dst_uri"
    using assms(1,2) init_ok_iff by blast+
  then show ?thesis using assms by (simp add: S3BotoClient_cp_def)
qed

theorem client_cp_same_path_is_noop_witness:
  "S3BotoClient_cp (\<lambda>b p m n. [Some [\<lparr>Key = ''foo/test/key000'', Size = 0\<rparr>]])
     ''s3://bucket/foo/test/'' ''s3n://bucket/foo//test/'' = Inr []"
proof -
  have 1: "S3Path_init ''s3://bucket/foo/test/'' = Inr \<lparr>proto = ''s3'', bucket = ''bucket'', path = ''foo/test/''\<rparr>"
    by (simp add: S3Path_init_def S3PATH_PATTERN_match_def scheme_group_def slash_def newline_def)
  have 2: "S3Path_init ''s3n://bucket/foo//test/'' = Inr \<lparr>proto = ''s3'', bucket = ''bucket'', path = ''foo/test/''\<rparr>"
    by (simp add: S3Path_init_def S3PATH_PATTERN_match_def scheme_group_def slash_def newline_def)
  have 3: "S3Path_eq \<lparr>proto = ''s3'', bucket = ''bucket'', path = ''foo/test/''\<rparr>
             \<lparr>proto = ''s3'', bucket = ''bucket'', path = ''foo/test/''\<rparr>"
    by (simp add: S3Path_eq_def)
  show ?thesis by (rule client_cp_same_path_is_noop [OF 1 2 3])
qed

text \<open>
  C4. \<open>is_file\<close> is called through \<open>lru_cache\<close>, which hashes \<open>self\<close>, and an
  \<open>S3Path\<close> cannot be hashed: the call raises \<open>TypeError\<close> for the prefix
  \<open>s3://test-bucket/path/p2/\<close> as for the object \<open>s3://test-bucket/path/p2\<close>, and
  returns neither true nor false.
\<close>

theorem is_file_raises_TypeError:
  "S3Path_init ''s3://test-bucket/path/p2/'' =
     Inr \<lparr>proto = ''s3'', bucket = ''test-bucket'', path = ''path/p2/''\<rparr> \<and>
   is_file \<lparr>proto = ''s3'', bucket = ''test-bucket'', path = ''path/p2/''\<rparr> = Inl TypeError \<and>
   S3Path_init ''s3://test-bucket/path/p2'' =
     Inr \<lparr>proto = ''s3'', bucket = ''test-bucket'', path = ''path/p2''\<rparr> \<and>
   is_file \<lparr>proto = ''s3'', bucket = ''test-bucket'', path = ''path/p2''\<rparr> = Inl TypeError"
  by code_simp

section \<open>Claims about the bulk copy\<close>

text \<open>
  C5. The source prefix \<open>a/\<close> lists the keys \<open>a/a/x\<close> and \<open>a/_SUCCESS\<close>, and the
  destination prefix is \<open>d/\<close>. The excluded key is skipped and one copy is issued, but
  its destination key is \<open>d/x\<close>: \<open>key.replace(self.path, "")\<close> removes every
  occurrence of the source prefix, where substituting the prefix gives \<open>d/a/x\<close>.
\<close>

theorem cp_removes_every_occurrence_of_prefix:
  "cp (\<lambda>b p m n. [Some [\<lparr>Key = ''a/a/x'', Size = 1\<rparr>, \<lparr>Key = ''a/_SUCCESS'', Size = 0\<rparr>]])
      \<lparr>proto = ''s3'', bucket = ''src'', path = ''a/''\<rparr>
      \<lparr>proto = ''s3'', bucket = ''dst'', path = ''d/''\<rparr> [''_SUCCESS'']
     = [Paginate ''src'' ''a/'', Copy ''src'' ''a/a/x'' ''dst'' ''d/x''] \<and>
   ''d/'' @ drop (length ''a/'') ''a/a/x'' = ''d/a/x''"
  by code_simp

section \<open>Claims about date-templated paths\<close>

text \<open>
  C9. The URI \<open>s3://bucket/{DATEIDxyz}\<close> is valid, its only segment passes the test
  on \<open>{DATEID\<close> and \<open>}\<close>, the pattern does not match it, and the constructor ends with
  \<open>AttributeError\<close>.
\<close>

theorem unmatched_token_text_raises:
  "is_valid ''s3://bucket/{DATEIDxyz}'' \<and>
   PARAM_PATTERN_match ''{DATEIDxyz}'' = None \<and>
   S3DatePath_init ''s3://bucket/{DATEIDxyz}'' = Inl AttributeError"
  by code_simp

text \<open>
  C1. \<open>resolve_dateid\<close> writes the resolved segments into \<open>_path_lst\<close>. After a first
  call at 2017-11-28 the object holds \<open>2017-11-28\<close> in place of \<open>{DATEID}\<close>, and a second
  call at 2017-11-29 gives the first answer again, where a fresh object gives
  \<open>s3://bucket/2017-11-29\<close>.
\<close>

theorem resolve_dateid_mutates_path_lst:
  "S3DatePath_init ''s3://bucket/{DATEID}'' =
     Inr \<lparr>proto = ''s3'', bucket = ''bucket'', path = ''{DATEID}'', path_lst = [''{DATEID}''],
          params = [\<lparr>p_idx = 0, p_dt = DATEID, p_sign = NONE, p_value = 0\<rparr>]\<rparr> \<and>
   resolve_dateid
     \<lparr>proto = ''s3'', bucket = ''bucket'', path = ''{DATEID}'', path_lst = [''{DATEID}''],
      params = [\<lparr>p_idx = 0, p_dt = DATEID, p_sign = NONE, p_value = 0\<rparr>]\<rparr> test_dt =
     Inr (''s3://bucket/2017-11-28'',
          \<lparr>proto = ''s3'', bucket = ''bucket'', path = ''{DATEID}'', path_lst = [''2017-11-28''],
           params = [\<lparr>p_idx = 0, p_dt = DATEID, p_sign = NONE, p_value = 0\<rparr>]\<rparr>) \<and>
   resolve_dateid
     \<lparr>proto = ''s3'', bucket = ''bucket'', path = ''{DATEID}'', path_lst = [''2017-11-28''],
      params = [\<lparr>p_idx = 0, p_dt = DATEID, p_sign = NONE, p_value = 0\<rparr>]\<rparr> (test_dt\<lparr>day := 29\<rparr>) =
     Inr (''s3://bucket/2017-11-28'',
          \<lparr>proto = ''s3'', bucket = ''bucket'', path = ''{DATEID}'', path_lst = [''2017-11-28''],
           params = [\<lparr>p_idx = 0, p_dt = DATEID, p_sign = NONE, p_value = 0\<rparr>]\<rparr>) \<and>
   resolve_dateid
     \<lparr>proto = ''s3'', bucket = ''bucket'', path = ''{DATEID}'', path_lst = [''{DATEID}''],
      params = [\<lparr>p_idx = 0, p_dt = DATEID, p_sign = NONE, p_value = 0\<rparr>]\<rparr> (test_dt\<lparr>day := 29\<rparr>) =
     Inr (''s3://bucket/2017-11-29'',
          \<lparr>proto = ''s3'', bucket = ''bucket'', path = ''{DATEID}'', path_lst = [''2017-11-29''],
           params = [\<lparr>p_idx = 0, p_dt = DATEID, p_sign = NONE, p_value = 0\<rparr>]\<rparr>)"
  by code_simp

text \<open>
  C3, as amended. On an object without placeholders \<open>resolve_dateid\<close> gives
  \<open>s3://bucket/\<close> followed by the segments of the path that are not blank, joined by
  single separators, and leaves the object as it is. This is the string form of the
  path when no segment of the normalized path is empty or blank, and in general exactly
  when the kept segments, joined, give the path back.
\<close>

theorem resolve_without_placeholders:
  assumes "S3DatePath_init uri = Inr p" and "params p = []"
  shows "\<exists>s. resolve_dateid p asOf = Inr (s, p) \<and>
           s = ''s3://'' @ bucket p @ ''/'' @
                 join ''/'' (filter (\<lambda>seg. strip seg \<noteq> []) (split_on slash (path p))) \<and>
           ((\<forall>seg \<in> set (split_on slash (path p)). strip seg \<noteq> []) \<longrightarrow> s = S3Path_str p) \<and>
           (s = S3Path_str p \<longleftrightarrow> join ''/'' (path_lst p) = path p)"
proof -
  note i = S3DatePath_init_Inr [OF assms(1)]
  let ?s = "''s3://'' @ bucket p @ ''/'' @ join ''/'' (path_lst p)"
  have r: "resolve_dateid p asOf = Inr (?s, p)"
    using resolve_no_params [OF assms(2)] i(4) by simp
  have str: "S3Path_str p = ''s3://'' @ bucket p @ ''/'' @ path p"
    by (simp add: S3Path_str_def i(4))
  have "path_lst p = split_on slash (path p)"
    if "\<forall>seg \<in> set (split_on slash (path p)). strip seg \<noteq> []"
    using that i(2) by simp
  then have "join ''/'' (path_lst p) = path p"
    if "\<forall>seg \<in> set (split_on slash (path p)). strip seg \<noteq> []"
    using that join_split_on [of "CHR ''/''" "path p"] by (simp add: slash_def)
  then show ?thesis using r str i(2) by auto
qed

theorem resolve_without_placeholders_witness:
  "S3DatePath_init ''s3://test-bucket/path/p2'' =
     Inr \<lparr>proto = ''s3'', bucket = ''test-bucket'', path = ''path/p2'',
          path_lst = [''path'', ''p2''], params = []\<rparr> \<and>
   resolve_dateid \<lparr>proto = ''s3'', bucket = ''test-bucket'', path = ''path/p2'',
          path_lst = [''path'', ''p2''], params = []\<rparr> test_dt =
     Inr (''s3://test-bucket/path/p2'',
          \<lparr>proto = ''s3'', bucket = ''test-bucket'', path = ''path/p2'',
           path_lst = [''path'', ''p2''], params = []\<rparr>)"
proof -
  let ?p = "\<lparr>proto = ''s3'', bucket = ''test-bucket'', path = ''path/p2'',
          path_lst = [''path'', ''p2''], params = []\<rparr>"
  have 1: "S3DatePath_init ''s3://test-bucket/path/p2'' = Inr ?p" by code_simp
  have 2: "params ?p = []" by simp
  have 3: "\<forall>seg \<in> set (split_on slash ''path/p2''). strip seg \<noteq> []" by code_simp
  have 4: "S3Path_str ?p = ''s3://test-bucket/path/p2''" by code_simp
  from resolve_without_placeholders [OF 1 2, of test_dt] 3 4
  have "resolve_dateid ?p test_dt = Inr (''s3://test-bucket/path/p2'', ?p)" by auto
  with 1 show ?thesis by blast
qed

text \<open>
  C3 as stated fails in two ways: a path without segments resolves to
  \<open>s3://bucket/\<close>, with the separator, and the trailing separator of \<open>s3://bucket/a/\<close>
  is not in the result, whereas it is in the string form of the path.
\<close>

theorem resolve_without_placeholders_counterexample:
  "S3DatePath_init ''s3://bucket'' =
     Inr \<lparr>proto = ''s3'', bucket = ''bucket'', path = [], path_lst = [], params = []\<rparr> \<and>
   resolve_dateid \<lparr>proto = ''s3'', bucket = ''bucket'', path = [], path_lst = [], params = []\<rparr> test_dt =
     Inr (''s3://bucket/'',
          \<lparr>proto = ''s3'', bucket = ''bucket'', path = [], path_lst = [], params = []\<rparr>) \<and>
   S3DatePath_init ''s3://bucket/a/'' =
     Inr \<lparr>proto = ''s3'', bucket = ''bucket'', path = ''a/'', path_lst = [''a''], params = []\<rparr> \<and>
   S3Path_str \<lparr>proto = ''s3'', bucket = ''bucket'', path = ''a/'', path_lst = [''a''], params = []\<rparr> =
     ''s3://bucket/a/'' \<and>
   resolve_dateid \<lparr>proto = ''s3'', bucket = ''bucket'', path = ''a/'', path_lst = [''a''], params = []\<rparr> test_dt =
     Inr (''s3://bucket/a'',
          \<lparr>proto = ''s3'', bucket = ''bucket'', path = ''a/'', path_lst = [''a''], params = []\<rparr>)"
  by code_simp

text \<open>
  C2, as amended. For a timestamp that the library accepts: with a sign, an offset
  beyond 999999999 days or a shifted day outside 0001-01-01 .. 9999-12-31 ends in
  \<open>OverflowError\<close>; otherwise there is an effective timestamp, a calendar date that the
  library accepts: the timestamp itself without a sign, and else the date whose day
  number is that of the timestamp minus (\<open>MINUS\<close>) or plus (\<open>PLUS\<close>) the offset, with
  the time of day as it was. Its value is the year, month and day as decimal numerals
  joined by \<open>-\<close>, for \<open>DATETIMEID\<close> followed by \<open>_\<close> and hour, minute and second joined
  by \<open>-\<close>; all but the year have two digits, and the year has no leading zero: four
  digits from the year 1000 on.
\<close>

theorem effective_timestamp:
  assumes "valid_datetime asOf"
  shows "if p_sign param \<noteq> NONE \<and>
            (999999999 < \<bar>p_value param\<bar> \<or> toordinal asOf + signed_offset param < 1 \<or>
             MAXORDINAL < toordinal asOf + signed_offset param)
         then extract_value param asOf = Inl OverflowError
         else (\<exists>ts Y M D h m s.
                 valid_datetime ts \<and> (p_sign param = NONE \<longrightarrow> ts = asOf) \<and>
                 toordinal ts = toordinal asOf + signed_offset param \<and>
                 hour ts = hour asOf \<and> minute ts = minute asOf \<and> second ts = second asOf \<and>
                 microsecond ts = microsecond asOf \<and>
                 decimal Y (year ts) \<and> hd Y \<noteq> CHR ''0'' \<and> (1000 \<le> year ts \<longrightarrow> length Y = 4) \<and>
                 decimal M (month ts) \<and> length M = 2 \<and> decimal D (day ts) \<and> length D = 2 \<and>
                 decimal h (hour ts) \<and> length h = 2 \<and> decimal m (minute ts) \<and> length m = 2 \<and>
                 decimal s (second ts) \<and> length s = 2 \<and>
                 extract_value param asOf =
                   Inr \<lparr>v_idx = p_idx param, v_token = reconstruct_match_token param,
                        v_value =
                          (if p_dt param = DATEID then Y @ ''-'' @ M @ ''-'' @ D
                           else Y @ ''-'' @ M @ ''-'' @ D @ ''_'' @ h @ ''-'' @ m @ ''-'' @ s)\<rparr>)"
proof (cases "p_sign param \<noteq> NONE \<and>
            (999999999 < \<bar>p_value param\<bar> \<or> toordinal asOf + signed_offset param < 1 \<or>
             MAXORDINAL < toordinal asOf + signed_offset param)")
  case True
  then have o: "extract_value param asOf = Inl OverflowError"
    by (intro extract_value_overflow) auto
  show ?thesis by (subst if_P [OF True]) (rule o)
next
  case False
  from effective_ts [OF assms False] obtain ts where ts:
    "valid_datetime ts" "p_sign param = NONE \<longrightarrow> ts = asOf"
    "toordinal ts = toordinal asOf + signed_offset param"
    "hour ts = hour asOf" "minute ts = minute asOf" "second ts = second asOf"
    "microsecond ts = microsecond asOf"
    "extract_value param asOf =
       Inr \<lparr>v_idx = p_idx param, v_token = reconstruct_match_token param,
            v_value = (if p_dt param = DATEID then strftime_DATE_STR ts
                       else strftime_DATETIME_STR ts)\<rparr>"
    by blast
  from strftime_format [OF ts(1)] obtain Y M D h m s where f:
    "decimal Y (year ts)" "hd Y \<noteq> CHR ''0''" "1000 \<le> year ts \<longrightarrow> length Y = 4"
    "decimal M (month ts)" "length M = 2" "decimal D (day ts)" "length D = 2"
    "decimal h (hour ts)" "length h = 2" "decimal m (minute ts)" "length m = 2"
    "decimal s (second ts)" "length s = 2"
    "strftime_DATE_STR ts = Y @ ''-'' @ M @ ''-'' @ D"
    "strftime_DATETIME_STR ts = Y @ ''-'' @ M @ ''-'' @ D @ ''_'' @ h @ ''-'' @ m @ ''-'' @ s"
    by blast
  have "extract_value param asOf =
          Inr \<lparr>v_idx = p_idx param, v_token = reconstruct_match_token param,
               v_value =
                 (if p_dt param = DATEID then Y @ ''-'' @ M @ ''-'' @ D
                  else Y @ ''-'' @ M @ ''-'' @ D @ ''_'' @ h @ ''-'' @ m @ ''-'' @ s)\<rparr>"
    using ts(8) f(14,15) by simp
  with ts(1-7) f(1-13) have ex: "\<exists>ts Y M D h m s.
                 valid_datetime ts \<and> (p_sign param = NONE \<longrightarrow> ts = asOf) \<and>
                 toordinal ts = toordinal asOf + signed_offset param \<and>
                 hour ts = hour asOf \<and> minute ts = minute asOf \<and> second ts = second asOf \<and>
                 microsecond ts = microsecond asOf \<and>
                 decimal Y (year ts) \<and> hd Y \<noteq> CHR ''0'' \<and> (1000 \<le> year ts \<longrightarrow> length Y = 4) \<and>
                 decimal M (month ts) \<and> length M = 2 \<and> decimal D (day ts) \<and> length D = 2 \<and>
                 decimal h (hour ts) \<and> length h = 2 \<and> decimal m (minute ts) \<and> length m = 2 \<and>
                 decimal s (second ts) \<and> length s = 2 \<and>
                 extract_value param asOf =
                   Inr \<lparr>v_idx = p_idx param, v_token = reconstruct_match_token param,
                        v_value =
                          (if p_dt param = DATEID then Y @ ''-'' @ M @ ''-'' @ D
                           else Y @ ''-'' @ M @ ''-'' @ D @ ''_'' @ h @ ''-'' @ m @ ''-'' @ s)\<rparr>"
    by blast
  show ?thesis by (subst if_not_P [OF False]) (rule ex)
qed

theorem effective_timestamp_witness:
  "valid_datetime test_dt \<and>
   extract_value \<lparr>p_idx = 2, p_dt = DATETIMEID, p_sign = MINUS, p_value = 1\<rparr> test_dt =
     Inr \<lparr>v_idx = 2, v_token = ''{DATETIMEID-1}'', v_value = ''2017-11-27_23-55-59''\<rparr> \<and>
   extract_value \<lparr>p_idx = 0, p_dt = DATEID, p_sign = MINUS, p_value = 1\<rparr>
     \<lparr>year = 1000, month = 1, day = 1, hour = 0, minute = 0, second = 0, microsecond = 0\<rparr> =
     Inr \<lparr>v_idx = 0, v_token = ''{DATEID-1}'', v_value = ''999-12-31''\<rparr> \<and>
   S3DatePath_init ''s3://test-bucket/path/p2/some_{DATETIMEID-1}'' =
     Inr \<lparr>proto = ''s3'', bucket = ''test-bucket'', path = ''path/p2/some_{DATETIMEID-1}'',
          path_lst = [''path'', ''p2'', ''some_{DATETIMEID-1}''],
          params = [\<lparr>p_idx = 2, p_dt = DATETIMEID, p_sign = MINUS, p_value = 1\<rparr>]\<rparr> \<and>
   resolve_dateid
     \<lparr>proto = ''s3'', bucket = ''test-bucket'', path = ''path/p2/some_{DATETIMEID-1}'',
      path_lst = [''path'', ''p2'', ''some_{DATETIMEID-1}''],
      params = [\<lparr>p_idx = 2, p_dt = DATETIMEID, p_sign = MINUS, p_value = 1\<rparr>]\<rparr> test_dt =
     Inr (''s3://test-bucket/path/p2/some_2017-11-27_23-55-59'',
          \<lparr>proto = ''s3'', bucket = ''test-bucket'', path = ''path/p2/some_{DATETIMEID-1}'',
           path_lst = [''path'', ''p2'', ''some_2017-11-27_23-55-59''],
           params = [\<lparr>p_idx = 2, p_dt = DATETIMEID, p_sign = MINUS, p_value = 1\<rparr>]\<rparr>)"
proof -
  have v: "valid_datetime test_dt" by code_simp
  have e: "extract_value \<lparr>p_idx = 2, p_dt = DATETIMEID, p_sign = MINUS, p_value = 1\<rparr> test_dt =
     Inr \<lparr>v_idx = 2, v_token = ''{DATETIMEID-1}'', v_value = ''2017-11-27_23-55-59''\<rparr>"
    by code_simp
  have y: "extract_value \<lparr>p_idx = 0, p_dt = DATEID, p_sign = MINUS, p_value = 1\<rparr>
     \<lparr>year = 1000, month = 1, day = 1, hour = 0, minute = 0, second = 0, microsecond = 0\<rparr> =
     Inr \<lparr>v_idx = 0, v_token = ''{DATEID-1}'', v_value = ''999-12-31''\<rparr>"
    by code_simp
  have i: "S3DatePath_init ''s3://test-bucket/path/p2/some_{DATETIMEID-1}'' =
     Inr \<lparr>proto = ''s3'', bucket = ''test-bucket'', path = ''path/p2/some_{DATETIMEID-1}'',
          path_lst = [''path'', ''p2'', ''some_{DATETIMEID-1}''],
          params = [\<lparr>p_idx = 2, p_dt = DATETIMEID, p_sign = MINUS, p_value = 1\<rparr>]\<rparr>"
    by code_simp
  have r: "resolve_dateid
     \<lparr>proto = ''s3'', bucket = ''test-bucket'', path = ''path/p2/some_{DATETIMEID-1}'',
      path_lst = [''path'', ''p2'', ''some_{DATETIMEID-1}''],
      params = [\<lparr>p_idx = 2, p_dt = DATETIMEID, p_sign = MINUS, p_value = 1\<rparr>]\<rparr> test_dt =
     Inr (''s3://test-bucket/path/p2/some_2017-11-27_23-55-59'',
          \<lparr>proto = ''s3'', bucket = ''test-bucket'', path = ''path/p2/some_{DATETIMEID-1}'',
           path_lst = [''path'', ''p2'', ''some_2017-11-27_23-55-59''],
           params = [\<lparr>p_idx = 2, p_dt = DATETIMEID, p_sign = MINUS, p_value = 1\<rparr>]\<rparr>)"
    by code_simp
  show ?thesis
    using effective_timestamp [OF v, of "\<lparr>p_idx = 2, p_dt = DATETIMEID, p_sign = MINUS, p_value = 1\<rparr>"] v e y i r
    by simp
qed

text \<open>
  C2 as stated fails where the shifted day leaves the range of \<open>datetime\<close>:
  \<open>{DATEID-1}\<close> resolved at 0001-01-01 raises \<open>OverflowError\<close>, so there is no
  effective timestamp one day before.
\<close>

theorem effective_timestamp_counterexample:
  "valid_datetime \<lparr>year = 1, month = 1, day = 1, hour = 0, minute = 0, second = 0, microsecond = 0\<rparr> \<and>
   extract_value \<lparr>p_idx = 0, p_dt = DATEID, p_sign = MINUS, p_value = 1\<rparr>
     \<lparr>year = 1, month = 1, day = 1, hour = 0, minute = 0, second = 0, microsecond = 0\<rparr> =
     Inl OverflowError \<and>
   S3DatePath_init ''s3://bucket/{DATEID-1}'' =
     Inr \<lparr>proto = ''s3'', bucket = ''bucket'', path = ''{DATEID-1}'', path_lst = [''{DATEID-1}''],
          params = [\<lparr>p_idx = 0, p_dt = DATEID, p_sign = MINUS, p_value = 1\<rparr>]\<rparr> \<and>
   resolve_dateid
     \<lparr>proto = ''s3'', bucket = ''bucket'', path = ''{DATEID-1}'', path_lst = [''{DATEID-1}''],
      params = [\<lparr>p_idx = 0, p_dt = DATEID, p_sign = MINUS, p_value = 1\<rparr>]\<rparr>
     \<lparr>year = 1, month = 1, day = 1, hour = 0, minute = 0, second = 0, microsecond = 0\<rparr> =
     Inl OverflowError"
  by code_simp

text \<open>
  C6. The segment \<open>{DATEID-01}\<close> matches the pattern with sign \<open>-\<close> and digits \<open>01\<close>.
  The placeholder keeps the number 1, \<open>_reconstruct_match_token\<close> writes it as
  \<open>{DATEID-1}\<close>, which does not occur in the segment, and \<open>resolve_dateid\<close> returns the
  path with the token still in it. For an offset written without leading zeros the
  token is reconstructed as it stands in the segment and every occurrence of it is
  replaced (\<open>placeholder_token_is_replaced\<close>).
\<close>

theorem leading_zero_token_is_not_replaced:
  "S3DatePath_init ''s3://bucket/{DATEID-01}'' =
     Inr \<lparr>proto = ''s3'', bucket = ''bucket'', path = ''{DATEID-01}'', path_lst = [''{DATEID-01}''],
          params = [\<lparr>p_idx = 0, p_dt = DATEID, p_sign = MINUS, p_value = 1\<rparr>]\<rparr> \<and>
   reconstruct_match_token \<lparr>p_idx = 0, p_dt = DATEID, p_sign = MINUS, p_value = 1\<rparr> = ''{DATEID-1}'' \<and>
   resolve_dateid
     \<lparr>proto = ''s3'', bucket = ''bucket'', path = ''{DATEID-01}'', path_lst = [''{DATEID-01}''],
      params = [\<lparr>p_idx = 0, p_dt = DATEID, p_sign = MINUS, p_value = 1\<rparr>]\<rparr> test_dt =
     Inr (''s3://bucket/{DATEID-01}'',
          \<lparr>proto = ''s3'', bucket = ''bucket'', path = ''{DATEID-01}'', path_lst = [''{DATEID-01}''],
           params = [\<lparr>p_idx = 0, p_dt = DATEID, p_sign = MINUS, p_value = 1\<rparr>]\<rparr>)"
  by code_simp

end
